theory Spec2Isabelle
  imports Complex_Main "HOL-Library.Log_Nat"
begin

section \<open>Text: Python strings as sequences of Unicode code points\<close>

text \<open>
  A Python \<open>str\<close> is a sequence of Unicode code points, so the OCR text is a list of
  natural numbers.  Literals of the program (player names, pattern characters) are ASCII
  and are written as HOL strings; \<open>ustr\<close> turns them into code points.
\<close>

type_synonym ustr = "nat list"

definition ustr :: "string \<Rightarrow> ustr" where
  "ustr s = map of_char s"

text \<open>
  \<open>\s\<close> of a \<open>str\<close> pattern, and the white space that \<open>float\<close> strips: the code points
  for which \<open>str.isspace\<close> holds.
\<close>

definition uni_isspace :: "nat \<Rightarrow> bool" where
  "uni_isspace c \<longleftrightarrow>
     (9 \<le> c \<and> c \<le> 13) \<or> (28 \<le> c \<and> c \<le> 32) \<or> c = 133 \<or> c = 160 \<or> c = 5760 \<or>
     (8192 \<le> c \<and> c \<le> 8202) \<or> c = 8232 \<or> c = 8233 \<or> c = 8239 \<or> c = 8287 \<or> c = 12288"

text \<open>
  \<open>\d\<close> of a \<open>str\<close> pattern is every code point of category Nd, and \<open>float\<close> reads each
  of them as its decimal value.  The Nd code points come in runs of ten, the digits 0 to
  9 in order; \<open>nd_zeros\<close> lists the first code point of every run (Unicode 14.0, the
  table of CPython 3.11).
\<close>

definition nd_zeros :: "nat list" where
  "nd_zeros =
    [48, 1632, 1776, 1984, 2406, 2534, 2662, 2790, 2918, 3046, 3174, 3302, 3430, 3558,
     3664, 3792, 3872, 4160, 4240, 6112, 6160, 6470, 6608, 6784, 6800, 6992, 7088, 7232,
     7248, 42528, 43216, 43264, 43472, 43504, 43600, 44016, 65296, 66720, 68912, 69734,
     69872, 69942, 70096, 70384, 70736, 70864, 71248, 71360, 71472, 71904, 72016, 72784,
     73040, 73120, 92768, 92864, 93008, 120782, 120792, 120802, 120812, 120822, 123200,
     123632, 125264, 130032]"

definition uni_todecimal :: "nat \<Rightarrow> nat option" where
  "uni_todecimal c = map_option (\<lambda>z. c - z) (find (\<lambda>z. z \<le> c \<and> c < z + 10) nd_zeros)"

definition uni_isdecimal :: "nat \<Rightarrow> bool" where
  "uni_isdecimal c \<longleftrightarrow> uni_todecimal c \<noteq> None"

text \<open>
  A literal of a pattern compiled with \<open>re.IGNORECASE\<close>: a text character matches when
  its simple lower-case mapping is the lower-cased pattern character, or one of the
  characters that \<open>re\<close> treats as case-equivalent to it.  For an ASCII letter these are
  its two cases, and in addition U+0130 and U+0131 for i, U+017F for s and U+212A for k.
  A pattern character without case matches itself only.  The patterns of this program
  are ASCII.
\<close>

definition ascii_lower :: "nat \<Rightarrow> nat" where
  "ascii_lower c = (if 65 \<le> c \<and> c \<le> 90 then c + 32 else c)"

definition ignorecase_set :: "nat \<Rightarrow> nat list" where
  "ignorecase_set p =
     (let lo = ascii_lower p in
      if 97 \<le> lo \<and> lo \<le> 122 then
        [lo, lo - 32] @
        (if lo = 105 then [304, 305] else if lo = 115 then [383]
         else if lo = 107 then [8490] else [])
      else [p])"

section \<open>The regular expressions of the parser\<close>

text \<open>
  The patterns use literals, \<open>\s\<close>, \<open>\d\<close>, the greedy quantifiers \<open>*\<close> and \<open>+\<close> on a
  single character class, and one capturing group.
\<close>

datatype atom = Lit nat | Space | Digit

fun atom_ok :: "atom \<Rightarrow> nat \<Rightarrow> bool" where
  "atom_ok (Lit p) c = (c \<in> set (ignorecase_set p))"
| "atom_ok Space c = uni_isspace c"
| "atom_ok Digit c = uni_isdecimal c"

datatype piece = Once atom | Many0 atom | Many1 atom | GroupOpen | GroupClose

text \<open>
  \<open>rx_match ps ing s\<close> matches the pieces \<open>ps\<close> at the beginning of \<open>s\<close>, as the
  backtracking matcher of \<open>re\<close> does: a greedy quantifier first takes as many characters
  as it can and gives them back one at a time while the rest of the pattern fails.  The
  result is the text of group 1; \<open>ing\<close> tells whether the matcher is inside the group.
\<close>

definition keep :: "bool \<Rightarrow> nat \<Rightarrow> ustr \<Rightarrow> ustr" where
  "keep ing c g = (if ing then c # g else g)"

fun rx_match :: "piece list \<Rightarrow> bool \<Rightarrow> ustr \<Rightarrow> ustr option" where
  "rx_match [] ing s = Some []"
| "rx_match (GroupOpen # ps) ing s = rx_match ps True s"
| "rx_match (GroupClose # ps) ing s = rx_match ps False s"
| "rx_match (Once a # ps) ing [] = None"
| "rx_match (Once a # ps) ing (c # cs) =
     (if atom_ok a c then map_option (keep ing c) (rx_match ps ing cs) else None)"
| "rx_match (Many0 a # ps) ing [] = rx_match ps ing []"
| "rx_match (Many0 a # ps) ing (c # cs) =
     (if atom_ok a c then
        (case rx_match (Many0 a # ps) ing cs of
           Some g \<Rightarrow> Some (keep ing c g)
         | None \<Rightarrow> rx_match ps ing (c # cs))
      else rx_match ps ing (c # cs))"
| "rx_match (Many1 a # ps) ing [] = None"
| "rx_match (Many1 a # ps) ing (c # cs) =
     (if atom_ok a c then map_option (keep ing c) (rx_match (Many0 a # ps) ing cs) else None)"

text \<open>\<open>re.search\<close>: the match at the leftmost position of the text where one exists.\<close>

fun rx_search :: "piece list \<Rightarrow> ustr \<Rightarrow> ustr option" where
  "rx_search ps [] = rx_match ps False []"
| "rx_search ps (c # cs) =
     (case rx_match ps False (c # cs) of Some g \<Rightarrow> Some g | None \<Rightarrow> rx_search ps cs)"

definition lits :: "string \<Rightarrow> piece list" where
  "lits s = map (\<lambda>c. Once (Lit (of_char c))) s"

text \<open>\<open>(\d+\.\d+)\<close>\<close>

definition number_group :: "piece list" where
  "number_group = [GroupOpen, Many1 Digit, Once (Lit 46), Many1 Digit, GroupClose]"

text \<open>
  The pattern lists of the two variants of \<open>parse_leaderboard_data\<close>, in the order of
  the source:
  \<^verbatim>\<open>{name}:\s*(\d+\.\d+)\<close>, \<^verbatim>\<open>{name}\s*-\s*(\d+\.\d+)\<close>, \<^verbatim>\<open>{name}\s+(\d+\.\d+)\<close>, and in
  the OCR.space variant also \<^verbatim>\<open>{name}'s time:\s*(\d+\.\d+)\<close> and
  \<^verbatim>\<open>{name}\s*=\s*(\d+\.\d+)\<close>.
\<close>

definition pat_colon :: "string \<Rightarrow> piece list" where
  "pat_colon name = lits name @ lits '':'' @ [Many0 Space] @ number_group"

definition pat_hyphen :: "string \<Rightarrow> piece list" where
  "pat_hyphen name = lits name @ [Many0 Space] @ lits ''-'' @ [Many0 Space] @ number_group"

definition pat_space :: "string \<Rightarrow> piece list" where
  "pat_space name = lits name @ [Many1 Space] @ number_group"

definition pat_time :: "string \<Rightarrow> piece list" where
  "pat_time name =
     lits name @ lits [CHR 0x27] @ lits ''s time:'' @ [Many0 Space] @ number_group"

definition pat_equals :: "string \<Rightarrow> piece list" where
  "pat_equals name = lits name @ [Many0 Space] @ lits ''='' @ [Many0 Space] @ number_group"

definition patterns_local :: "string \<Rightarrow> piece list list" where
  "patterns_local name = [pat_colon name, pat_hyphen name, pat_space name]"

definition patterns_ocrspace :: "string \<Rightarrow> piece list list" where
  "patterns_ocrspace name =
     [pat_colon name, pat_hyphen name, pat_space name, pat_time name, pat_equals name]"

definition player_names :: "string list" where
  "player_names =
     [''Merrick'', ''Moi'', ''Sidney'', ''John'', ''Lauren'', ''Vy'', ''Marcus'', ''Chris'',
      ''Leslie'']"

section \<open>Floating-point numbers: \<open>float\<close> and \<open>str\<close>\<close>

text \<open>
  A Python \<open>float\<close> is an IEEE 754 binary64 number.  \<open>Finite s m e\<close> is the number
  \<open>(-1)\<^sup>s \<times> m \<times> 2\<^sup>e\<close> in its binary64 form: \<open>m < 2\<^sup>5\<^sup>3\<close>, \<open>-1074 \<le> e \<le> 971\<close>, and
  \<open>2\<^sup>5\<^sup>2 \<le> m\<close> unless \<open>e = -1074\<close> (zero and the subnormal numbers).
\<close>

datatype pyfloat = Finite bool nat int | Infinity bool | NaN

text \<open>Non-negative fractions \<open>(n, d)\<close> with \<open>d > 0\<close>, and their product with \<open>b\<^sup>k\<close>.\<close>

type_synonym frac = "nat \<times> nat"

definition scale :: "nat \<Rightarrow> int \<Rightarrow> frac \<Rightarrow> frac" where
  "scale b k x = (if 0 \<le> k then (fst x * b ^ nat k, snd x) else (fst x, snd x * b ^ nat (- k)))"

text \<open>The number of digits of \<open>n\<close> in base \<open>b\<close>, counted from \<open>k\<close>.\<close>

fun ndigits_from :: "nat \<Rightarrow> nat \<Rightarrow> nat \<Rightarrow> nat" where
  "ndigits_from k b n = (if n = 0 \<or> b < 2 then k else ndigits_from (k + 1) b (n div b))"

declare ndigits_from.simps [simp del]

definition ndigits :: "nat \<Rightarrow> nat \<Rightarrow> nat" where
  "ndigits b n = ndigits_from 0 b n"

text \<open>\<open>floor_log b x\<close> is the integer \<open>k\<close> with \<open>b\<^sup>k \<le> x < b\<^sup>k\<^sup>+\<^sup>1\<close>, for \<open>x > 0\<close>.\<close>

definition floor_log :: "nat \<Rightarrow> frac \<Rightarrow> int" where
  "floor_log b x =
     (let k = int (ndigits b (fst x)) - int (ndigits b (snd x));
          p = scale b k (1, 1)
      in if fst p * snd x \<le> fst x * snd p then k else k - 1)"

definition round_half_even :: "frac \<Rightarrow> nat" where
  "round_half_even x =
     (let q = fst x div snd x; r = fst x mod snd x
      in if 2 * r < snd x then q
         else if snd x < 2 * r then q + 1
         else if even q then q else q + 1)"

text \<open>
  Rounding a non-negative fraction to the nearest binary64 number, ties to even; a
  result of \<open>2\<^sup>1\<^sup>0\<^sup>2\<^sup>4\<close> or more is infinity, as in \<open>float("1e400")\<close>.
\<close>

definition round_binary64 :: "bool \<Rightarrow> frac \<Rightarrow> pyfloat" where
  "round_binary64 neg x =
     (if fst x = 0 then Finite neg 0 (- 1074)
      else
        let e = max (floor_log 2 x - 52) (- 1074);
            m = round_half_even (scale 2 (- e) x);
            m' = (if m = 2 ^ 53 then 2 ^ 52 else m);
            e' = (if m = 2 ^ 53 then e + 1 else e)
        in if 971 < e' then Infinity neg else Finite neg m' e')"

subsection \<open>\<open>float(s)\<close>\<close>

text \<open>
  \<open>float\<close> of a \<open>str\<close> first maps every non-ASCII white space to a blank and every
  non-ASCII decimal digit to its ASCII digit (any other non-ASCII character becomes
  \<open>?\<close>, which no number contains), then strips ASCII white space at both ends.
\<close>

definition float_transform :: "nat \<Rightarrow> nat" where
  "float_transform c =
     (if c < 128 then c
      else if uni_isspace c then 32
      else case uni_todecimal c of Some d \<Rightarrow> 48 + d | None \<Rightarrow> 63)"

definition ascii_isspace :: "nat \<Rightarrow> bool" where
  "ascii_isspace c \<longleftrightarrow> (9 \<le> c \<and> c \<le> 13) \<or> c = 32"

definition ascii_isdigit :: "nat \<Rightarrow> bool" where
  "ascii_isdigit c \<longleftrightarrow> 48 \<le> c \<and> c \<le> 57"

definition strip_space :: "ustr \<Rightarrow> ustr" where
  "strip_space s = rev (dropWhile ascii_isspace (rev (dropWhile ascii_isspace s)))"

text \<open>
  An underscore is allowed between two digits only; the underscores are removed.
  \<open>prev\<close> is the character before, 0 at the beginning.
\<close>

fun remove_underscores :: "nat \<Rightarrow> ustr \<Rightarrow> ustr option" where
  "remove_underscores prev [] = (if prev = 95 then None else Some [])"
| "remove_underscores prev (c # cs) =
     (if c = 95 then
        (if ascii_isdigit prev then remove_underscores c cs else None)
      else if prev = 95 \<and> \<not> ascii_isdigit c then None
      else map_option (\<lambda>r. c # r) (remove_underscores c cs))"

definition digits_value :: "ustr \<Rightarrow> nat" where
  "digits_value ds = foldl (\<lambda>a c. 10 * a + (c - 48)) 0 ds"

text \<open>An optional sign: whether it is a minus, and the rest.\<close>

definition split_sign :: "ustr \<Rightarrow> bool \<times> ustr" where
  "split_sign s =
     (case s of
        [] \<Rightarrow> (False, [])
      | c # cs \<Rightarrow> if c = 45 then (True, cs) else if c = 43 then (False, cs) else (False, s))"

text \<open>The exponent part: empty, or \<open>e\<close> or \<open>E\<close>, an optional sign and at least one digit.\<close>

definition parse_exponent :: "ustr \<Rightarrow> int option" where
  "parse_exponent r =
     (case r of
        [] \<Rightarrow> Some 0
      | c # cs \<Rightarrow>
          if c = 101 \<or> c = 69 then
            (let ds = snd (split_sign cs) in
             if ds \<noteq> [] \<and> list_all ascii_isdigit ds then
               Some (if fst (split_sign cs) then - int (digits_value ds)
                     else int (digits_value ds))
             else None)
          else None)"

text \<open>
  A decimal number: digits, optionally a point and digits, with at least one digit in
  all, and the exponent part.  The result is its value as a fraction.
\<close>

definition parse_decimal :: "ustr \<Rightarrow> frac option" where
  "parse_decimal s =
     (let ip = takeWhile ascii_isdigit s;
          r1 = dropWhile ascii_isdigit s;
          point = (r1 \<noteq> [] \<and> hd r1 = 46);
          fp = (if point then takeWhile ascii_isdigit (tl r1) else []);
          r2 = (if point then dropWhile ascii_isdigit (tl r1) else r1)
      in if ip = [] \<and> fp = [] then None
         else case parse_exponent r2 of
                None \<Rightarrow> None
              | Some ex \<Rightarrow> Some (scale 10 (ex - int (length fp)) (digits_value (ip @ fp), 1)))"

definition py_float :: "ustr \<Rightarrow> pyfloat option" where
  "py_float s =
     (case remove_underscores 0 (strip_space (map float_transform s)) of
        None \<Rightarrow> None
      | Some u \<Rightarrow>
          (let neg = fst (split_sign u);
               body = map ascii_lower (snd (split_sign u))
           in if body = ustr ''inf'' \<or> body = ustr ''infinity'' then Some (Infinity neg)
              else if body = ustr ''nan'' then Some NaN
              else map_option (round_binary64 neg) (parse_decimal (snd (split_sign u)))))"

subsection \<open>\<open>str(x)\<close>\<close>

text \<open>
  \<open>str\<close> of a float is its \<open>repr\<close>: the shortest decimal numeral that \<open>float\<close> reads
  back as the same number and, among the numerals of that length, the one nearest to
  it.  For \<open>x = m \<times> 2\<^sup>e\<close>, with \<open>10\<^sup>p \<le> x < 10\<^sup>p\<^sup>+\<^sup>1\<close>, the numerals of \<open>n\<close> digits next to
  \<open>x\<close> are \<open>lo \<times> 10\<^sup>s\<close> and \<open>(lo + 1) \<times> 10\<^sup>s\<close>, where \<open>s = p - n + 1\<close>.
\<close>

definition repr_candidate :: "nat \<Rightarrow> int \<Rightarrow> int \<Rightarrow> nat \<Rightarrow> (nat \<times> int) option" where
  "repr_candidate m e p n =
     (let s = p - int n + 1;
          y = scale 10 (- s) (scale 2 e (m, 1));
          lo = fst y div snd y;
          ok_lo = (round_binary64 False (scale 10 s (lo, 1)) = Finite False m e);
          ok_hi = (round_binary64 False (scale 10 s (lo + 1, 1)) = Finite False m e)
      in if ok_lo \<and> ok_hi then
           Some (if 2 * fst y < (2 * lo + 1) * snd y then lo
                 else if (2 * lo + 1) * snd y < 2 * fst y then lo + 1
                 else if even lo then lo else lo + 1, s)
         else if ok_lo then Some (lo, s)
         else if ok_hi then Some (lo + 1, s)
         else None)"

text \<open>Seventeen digits always suffice; with so many, the nearest numeral is taken.\<close>

function shortest_decimal :: "nat \<Rightarrow> int \<Rightarrow> int \<Rightarrow> nat \<Rightarrow> nat \<times> int" where
  "shortest_decimal m e p n =
     (if 17 \<le> n then
        (round_half_even (scale 10 (16 - p) (scale 2 e (m, 1))), p - 16)
      else case repr_candidate m e p n of
             Some r \<Rightarrow> r
           | None \<Rightarrow> shortest_decimal m e p (n + 1))"
  by pat_completeness auto
termination
  by (relation "measure (\<lambda>(m, e, p, n). 17 - n)") auto

declare shortest_decimal.simps [simp del]

fun dec_digits :: "nat \<Rightarrow> nat list" where
  "dec_digits n = (if n < 10 then [n] else dec_digits (n div 10) @ [n mod 10])"

declare dec_digits.simps [simp del]

definition strip_zeros :: "nat list \<Rightarrow> nat list" where
  "strip_zeros ds = rev (dropWhile (\<lambda>d. d = 0) (rev ds))"

definition digit_chars :: "nat list \<Rightarrow> ustr" where
  "digit_chars ds = map (\<lambda>d. 48 + d) ds"

text \<open>The exponent as \<open>printf("%+.02d")\<close> writes it: a sign and at least two digits.\<close>

definition exponent_str :: "int \<Rightarrow> ustr" where
  "exponent_str ex =
     (if ex < 0 then 45 else 43) #
     (if \<bar>ex\<bar> < 10 then [48] else []) @ digit_chars (dec_digits (nat \<bar>ex\<bar>))"

text \<open>
  The digits \<open>ds\<close> with the decimal point after the first \<open>decpt\<close> of them: scientific
  notation when \<open>decpt \<le> -4\<close> or \<open>decpt > 16\<close>, and \<open>.0\<close> added to a whole number
  otherwise.
\<close>

definition format_repr :: "nat list \<Rightarrow> int \<Rightarrow> ustr" where
  "format_repr ds decpt =
     (if decpt \<le> - 4 \<or> 16 < decpt then
        digit_chars (take 1 ds) @
        (if 1 < length ds then 46 # digit_chars (drop 1 ds) else []) @
        101 # exponent_str (decpt - 1)
      else if decpt \<le> 0 then
        [48, 46] @ replicate (nat (- decpt)) 48 @ digit_chars ds
      else if int (length ds) \<le> decpt then
        digit_chars ds @ replicate (nat (decpt - int (length ds))) 48 @ [46, 48]
      else digit_chars (take (nat decpt) ds) @ 46 # digit_chars (drop (nat decpt) ds))"

definition float_repr :: "nat \<Rightarrow> int \<Rightarrow> ustr" where
  "float_repr m e =
     (if m = 0 then ustr ''0.0''
      else
        let r = shortest_decimal m e (floor_log 10 (scale 2 e (m, 1))) 1;
            ds = dec_digits (fst r)
        in format_repr (strip_zeros ds) (int (length ds) + snd r))"

fun py_str :: "pyfloat \<Rightarrow> ustr" where
  "py_str (Finite neg m e) = (if neg then [45] else []) @ float_repr m e"
| "py_str (Infinity neg) = (if neg then [45] else []) @ ustr ''inf''"
| "py_str NaN = ustr ''nan''"

section \<open>\<open>parse_leaderboard_data\<close>\<close>

datatype error = ValueError | TypeError | KeyError | AttributeError | OverflowError | ExternalError

text \<open>
  The OCR.space variant (\<open>imagetoleader.py\<close>).  The inner loop over the patterns of one
  name: on a match the group is converted with \<open>float\<close>; the value is stored as \<open>str\<close>
  of the float and the loop ends (\<open>break\<close>), and a \<open>ValueError\<close> goes on with the next
  pattern (\<open>continue\<close>).
\<close>

fun try_patterns :: "piece list list \<Rightarrow> ustr \<Rightarrow> ustr option" where
  "try_patterns [] text = None"
| "try_patterns (pattern # patterns) text =
     (case rx_search pattern text of
        None \<Rightarrow> try_patterns patterns text
      | Some g \<Rightarrow>
          (case py_float g of
             Some time_value \<Rightarrow> Some (py_str time_value)
           | None \<Rightarrow> try_patterns patterns text))"

text \<open>The outer loop over the names, with the dictionary \<open>data\<close>.\<close>

fun parse_names :: "string list \<Rightarrow> ustr \<Rightarrow> (ustr \<rightharpoonup> ustr) \<Rightarrow> (ustr \<rightharpoonup> ustr)" where
  "parse_names [] text data = data"
| "parse_names (name # names) text data =
     parse_names names text
       (case try_patterns (patterns_ocrspace name) text of
          Some v \<Rightarrow> data(ustr name \<mapsto> v)
        | None \<Rightarrow> data)"

definition parse_leaderboard_data :: "ustr \<Rightarrow> (ustr \<rightharpoonup> ustr)" where
  "parse_leaderboard_data text = parse_names player_names text Map.empty"

text \<open>
  The local-OCR variant: three patterns, and no handler around \<open>float\<close>, so that a
  \<open>ValueError\<close> would leave the function.
\<close>

fun try_patterns_local :: "piece list list \<Rightarrow> ustr \<Rightarrow> error + ustr option" where
  "try_patterns_local [] text = Inr None"
| "try_patterns_local (pattern # patterns) text =
     (case rx_search pattern text of
        None \<Rightarrow> try_patterns_local patterns text
      | Some g \<Rightarrow>
          (case py_float g of
             Some time_value \<Rightarrow> Inr (Some (py_str time_value))
           | None \<Rightarrow> Inl ValueError))"

fun parse_names_local ::
  "string list \<Rightarrow> ustr \<Rightarrow> (ustr \<rightharpoonup> ustr) \<Rightarrow> error + (ustr \<rightharpoonup> ustr)" where
  "parse_names_local [] text data = Inr data"
| "parse_names_local (name # names) text data =
     (case try_patterns_local (patterns_local name) text of
        Inl e \<Rightarrow> Inl e
      | Inr (Some v) \<Rightarrow> parse_names_local names text (data(ustr name \<mapsto> v))
      | Inr None \<Rightarrow> parse_names_local names text data)"

definition parse_leaderboard_data_local :: "ustr \<Rightarrow> error + (ustr \<rightharpoonup> ustr)" where
  "parse_leaderboard_data_local text = parse_names_local player_names text Map.empty"

section \<open>The store gateway\<close>

text \<open>
  The values that the store and the OCR provider send are JSON values, as Python reads
  them; the keys of an object are distinct.
\<close>

datatype json =
  JNull | JBool bool | JInt int | JFloat pyfloat | JStr ustr | JArr "json list"
  | JObj "(ustr \<times> json) list"


text \<open>
  \<open>int(s)\<close> of a string, base ten: white space around, an optional sign, and digits
  with single underscores between them (the limit that newer interpreters put on the
  number of digits is left out).
\<close>

definition int_of_str :: "ustr \<Rightarrow> error + int" where
  "int_of_str s =
     (case remove_underscores 0 (snd (split_sign (strip_space (map float_transform s)))) of
        None \<Rightarrow> Inl ValueError
      | Some ds \<Rightarrow>
          if ds \<noteq> [] \<and> list_all ascii_isdigit ds then
            Inr (if fst (split_sign (strip_space (map float_transform s)))
                 then - int (digits_value ds) else int (digits_value ds))
          else Inl ValueError)"

text \<open>\<open>int(x)\<close> of a float truncates towards zero.\<close>

fun int_of_float :: "pyfloat \<Rightarrow> error + int" where
  "int_of_float (Finite neg m e) =
     (let a = int (fst (scale 2 e (m, 1)) div snd (scale 2 e (m, 1)))
      in Inr (if neg then - a else a))"
| "int_of_float (Infinity neg) = Inl OverflowError"
| "int_of_float NaN = Inl ValueError"

fun py_int :: "json \<Rightarrow> error + int" where
  "py_int (JInt n) = Inr n"
| "py_int (JBool b) = Inr (if b then 1 else 0)"
| "py_int (JFloat x) = int_of_float x"
| "py_int (JStr s) = int_of_str s"
| "py_int JNull = Inl TypeError"
| "py_int (JArr xs) = Inl TypeError"
| "py_int (JObj kvs) = Inl TypeError"

text \<open>\<open>v[key]\<close> with a string key.\<close>

fun subscript :: "json \<Rightarrow> ustr \<Rightarrow> error + json" where
  "subscript (JObj kvs) key = (case map_of kvs key of Some v \<Rightarrow> Inr v | None \<Rightarrow> Inl KeyError)"
| "subscript v key = Inl TypeError"

text \<open>
  The client: what the two queries of the program on table \<open>crossword_times\<close> come
  back with, an exception or the rows of \<open>response.data\<close>.  \<open>select_max_id\<close> is
  \<open>select("id").order("id.desc").limit(1).execute()\<close>, and \<open>insert_record\<close> is
  \<open>insert(record).execute()\<close>.
\<close>

record supabase =
  select_max_id :: "error + json list"
  insert_record :: "(ustr \<rightharpoonup> ustr) \<Rightarrow> error + json list"

text \<open>The body of the \<open>try\<close> of \<open>get_next_id\<close>, and the function with its handler.\<close>

definition get_next_id_body :: "supabase \<Rightarrow> error + int" where
  "get_next_id_body sb =
     (case select_max_id sb of
        Inl e \<Rightarrow> Inl e
      | Inr rows \<Rightarrow>
          (case rows of
             [] \<Rightarrow> Inr 1
           | row # _ \<Rightarrow>
               (case subscript row (ustr ''id'') of
                  Inl e \<Rightarrow> Inl e
                | Inr v \<Rightarrow> (case py_int v of Inl e \<Rightarrow> Inl e | Inr n \<Rightarrow> Inr (n + 1)))))"

definition get_next_id :: "supabase \<Rightarrow> int" where
  "get_next_id sb = (case get_next_id_body sb of Inl e \<Rightarrow> 1 | Inr n \<Rightarrow> n)"




section \<open>The OCR.space text extractor\<close>

text \<open>
  What \<open>requests.post\<close> comes back with: an exception, or a response with its status
  code and what \<open>response.json()\<close> gives, an exception or the value read.
\<close>

record http_response =
  status_code :: int
  response_json :: "error + json"

text \<open>\<open>v != 1\<close>\<close>

fun ne_one :: "json \<Rightarrow> bool" where
  "ne_one (JInt n) = (n \<noteq> 1)"
| "ne_one (JBool b) = (\<not> b)"
| "ne_one (JFloat x) = (x \<noteq> Finite False (2 ^ 52) (- 52))"
| "ne_one v = True"

text \<open>\<open>d.get(key, default)\<close> of a dictionary.\<close>

fun dict_get :: "json \<Rightarrow> ustr \<Rightarrow> json \<Rightarrow> error + json" where
  "dict_get (JObj kvs) key dflt = Inr (case map_of kvs key of Some v \<Rightarrow> v | None \<Rightarrow> dflt)"
| "dict_get v key dflt = Inl AttributeError"

text \<open>What a \<open>for\<close> loop over a value goes through.\<close>

fun iterate :: "json \<Rightarrow> error + json list" where
  "iterate (JArr xs) = Inr xs"
| "iterate (JStr s) = Inr (map (\<lambda>c. JStr [c]) s)"
| "iterate (JObj kvs) = Inr (map (\<lambda>kv. JStr (fst kv)) kvs)"
| "iterate v = Inl TypeError"

text \<open>The loop \<open>extracted_text += page.get('ParsedText', '')\<close>.\<close>

fun append_pages :: "ustr \<Rightarrow> json list \<Rightarrow> error + ustr" where
  "append_pages extracted_text [] = Inr extracted_text"
| "append_pages extracted_text (page # pages) =
     (case dict_get page (ustr ''ParsedText'') (JStr []) of
        Inl e \<Rightarrow> Inl e
      | Inr (JStr t) \<Rightarrow> append_pages (extracted_text @ t) pages
      | Inr _ \<Rightarrow> Inl TypeError)"

definition extract_text_body :: "error + http_response \<Rightarrow> error + ustr" where
  "extract_text_body posted =
     (case posted of
        Inl e \<Rightarrow> Inl e
      | Inr response \<Rightarrow>
          if status_code response \<noteq> 200 then Inr []
          else
            (case response_json response of
               Inl e \<Rightarrow> Inl e
             | Inr result \<Rightarrow>
                 (case subscript result (ustr ''OCRExitCode'') of
                    Inl e \<Rightarrow> Inl e
                  | Inr code \<Rightarrow>
                      if ne_one code then Inr []
                      else
                        (case dict_get result (ustr ''ParsedResults'') (JArr []) of
                           Inl e \<Rightarrow> Inl e
                         | Inr pages \<Rightarrow>
                             (case iterate pages of
                                Inl e \<Rightarrow> Inl e
                              | Inr ps \<Rightarrow> append_pages [] ps)))))"

definition extract_text_from_image_ocrspace :: "ustr \<Rightarrow> error + http_response \<Rightarrow> ustr" where
  "extract_text_from_image_ocrspace ocr_api_key posted =
     (if ocr_api_key = [] then []
      else case extract_text_body posted of Inl e \<Rightarrow> [] | Inr text \<Rightarrow> text)"

section \<open>Predicates of the statements\<close>

text \<open>
  A name occurs in a text, in any letter case: \<open>ci_prefix\<close> at the beginning,
  \<open>ci_occurs\<close> somewhere.
\<close>

fun ci_prefix :: "string \<Rightarrow> ustr \<Rightarrow> bool" where
  "ci_prefix [] s = True"
| "ci_prefix (p # ps) [] = False"
| "ci_prefix (p # ps) (c # cs) = (atom_ok (Lit (of_char p)) c \<and> ci_prefix ps cs)"

fun ci_occurs :: "string \<Rightarrow> ustr \<Rightarrow> bool" where
  "ci_occurs name [] = ci_prefix name []"
| "ci_occurs name (c # cs) = (ci_prefix name (c # cs) \<or> ci_occurs name cs)"

text \<open>A float that is a number and not below zero; a float that is finite.\<close>

fun nonnegative :: "pyfloat \<Rightarrow> bool" where
  "nonnegative (Finite neg m e) = (\<not> neg \<or> m = 0)"
| "nonnegative (Infinity neg) = (\<not> neg)"
| "nonnegative NaN = False"

fun is_finite :: "pyfloat \<Rightarrow> bool" where
  "is_finite (Finite neg m e) = True"
| "is_finite (Infinity neg) = False"
| "is_finite NaN = False"


definition store_empty :: supabase where
  "store_empty = \<lparr>select_max_id = Inr [], insert_record = (\<lambda>r. Inr [])\<rparr>"

definition store_down :: supabase where
  "store_down = \<lparr>select_max_id = Inl ExternalError, insert_record = (\<lambda>r. Inl ExternalError)\<rparr>"


text \<open>Answers of the OCR provider for the examples.\<close>

definition page_of :: "ustr \<Rightarrow> json" where
  "page_of t = JObj [(ustr ''ParsedText'', JStr t)]"

definition ocr_answer :: "int \<Rightarrow> int \<Rightarrow> ustr list \<Rightarrow> error + http_response" where
  "ocr_answer status code texts =
     Inr \<lparr>status_code = status,
          response_json =
            Inr (JObj [(ustr ''ParsedResults'', JArr (map page_of texts)),
                       (ustr ''OCRExitCode'', JInt code)])\<rparr>"

text \<open>The shape of a text that \<^verbatim>\<open>\d+\.\d+\<close> matches: digits, a point, digits.\<close>

definition decimal_capture :: "ustr \<Rightarrow> bool" where
  "decimal_capture g \<longleftrightarrow>
     (let ip = takeWhile uni_isdecimal g; r = dropWhile uni_isdecimal g
      in ip \<noteq> [] \<and> r \<noteq> [] \<and> hd r = 46 \<and> tl r \<noteq> [] \<and> list_all uni_isdecimal (tl r))"

text \<open>A piece list without group brackets.\<close>

definition plain :: "piece list \<Rightarrow> bool" where
  "plain ps \<longleftrightarrow> GroupOpen \<notin> set ps \<and> GroupClose \<notin> set ps"

text \<open>
  The number that a text of the shape \<open>decimal_capture\<close> denotes, as a fraction: all its
  digits over a power of ten.
\<close>

definition capture_value :: "ustr \<Rightarrow> frac" where
  "capture_value g =
     (let t = map float_transform g;
          ip = takeWhile ascii_isdigit t;
          fp = tl (dropWhile ascii_isdigit t)
      in scale 10 (- int (length fp)) (digits_value (ip @ fp), 1))"

text \<open>The rational number that a fraction stands for.\<close>

definition frac_val :: "frac \<Rightarrow> rat" where
  "frac_val x = of_nat (fst x) / of_nat (snd x)"

section \<open>The store gateway: next identifier and insertion\<close>


lemma get_next_id_store_empty: "get_next_id store_empty = 1"
  by (simp add: get_next_id_def get_next_id_body_def store_empty_def)

lemma get_next_id_store_down: "get_next_id store_down = 1"
  by (simp add: get_next_id_def get_next_id_body_def store_down_def)





section \<open>Decimal strings\<close>

lemma dec_digits_nonempty: "dec_digits n \<noteq> []"
  by (subst dec_digits.simps) simp

lemma dec_digits_lt10: "d \<in> set (dec_digits n) \<Longrightarrow> d < 10"
proof (induction n arbitrary: d rule: dec_digits.induct)
  case (1 n)
  show ?case
  proof (cases "n < 10")
    case True
    with "1.prems" show ?thesis by (subst (asm) dec_digits.simps) simp
  next
    case False
    from "1.prems" have "d \<in> set (dec_digits (n div 10)) \<or> d = n mod 10"
      using False by (subst (asm) dec_digits.simps) auto
    then show ?thesis using "1.IH" [OF False] by auto
  qed
qed

lemma foldl_digits_append:
  "foldl (\<lambda>a c. 10 * a + (c - 48)) a0 (xs @ [x]) = 10 * foldl (\<lambda>a c. 10 * a + (c - 48)) a0 xs + (x - 48)"
  by simp


lemma digit_chars_isdigit:
  "\<forall>d \<in> set ds. d < 10 \<Longrightarrow> list_all ascii_isdigit (digit_chars ds)"
  by (auto simp: digit_chars_def ascii_isdigit_def list_all_iff)

lemma dec_digit_chars_isdigit: "list_all ascii_isdigit (digit_chars (dec_digits n))"
  by (rule digit_chars_isdigit) (auto dest: dec_digits_lt10)

lemma float_transform_ascii: "\<forall>c \<in> set s. c < 128 \<Longrightarrow> map float_transform s = s"
  by (induction s) (auto simp: float_transform_def)

lemma strip_space_id:
  "s \<noteq> [] \<Longrightarrow> \<not> ascii_isspace (hd s) \<Longrightarrow> \<not> ascii_isspace (last s) \<Longrightarrow> strip_space s = s"
proof -
  assume a: "s \<noteq> []" "\<not> ascii_isspace (hd s)" "\<not> ascii_isspace (last s)"
  then have 1: "dropWhile ascii_isspace s = s" by (cases s) auto
  from a have 2: "dropWhile ascii_isspace (rev s) = rev s"
    by (cases "rev s") (auto simp: last_rev hd_rev dest: arg_cong [where f = hd])
  show ?thesis by (simp add: strip_space_def 1 2)
qed

lemma remove_underscores_id:
  "95 \<notin> set s \<Longrightarrow> prev \<noteq> 95 \<Longrightarrow> remove_underscores prev s = Some s"
  by (induction s arbitrary: prev) auto

lemma isdigit_props: "ascii_isdigit c \<Longrightarrow> c < 128 \<and> c \<noteq> 95 \<and> \<not> ascii_isspace c \<and> c \<noteq> 45 \<and> c \<noteq> 43 \<and> c \<noteq> 46"
  by (auto simp: ascii_isdigit_def ascii_isspace_def)





section \<open>The record of a submission\<close>






section \<open>The OCR.space text extractor\<close>

lemma append_pages_texts:
  "list_all2 (\<lambda>page t. \<exists>kvs. page = JObj kvs \<and>
                map_of kvs (ustr ''ParsedText'') = Some (JStr t)) pages texts
   \<Longrightarrow> append_pages acc pages = Inr (acc @ concat texts)"
  by (induction pages texts arbitrary: acc rule: list_all2_induct) auto

text \<open>
  C8.  \<open>extract_text_from_image_ocrspace\<close> returns the empty string when the request
  raises, when the status is not 200, when the exit code of the provider is not 1 and
  when anything in its body raises; on success it returns the texts of the pages, in
  their order, one after the other.
\<close>

theorem extract_text_spec:
  "(ocr_api_key = [] \<longrightarrow> extract_text_from_image_ocrspace ocr_api_key posted = []) \<and>
   (posted = Inl e \<longrightarrow> extract_text_from_image_ocrspace ocr_api_key posted = []) \<and>
   (posted = Inr r \<and> status_code r \<noteq> 200 \<longrightarrow>
      extract_text_from_image_ocrspace ocr_api_key posted = []) \<and>
   (posted = Inr r \<and> response_json r = Inr result \<and>
    subscript result (ustr ''OCRExitCode'') = Inr code \<and> ne_one code \<longrightarrow>
      extract_text_from_image_ocrspace ocr_api_key posted = []) \<and>
   (extract_text_body posted = Inl e \<longrightarrow>
      extract_text_from_image_ocrspace ocr_api_key posted = []) \<and>
   (ocr_api_key \<noteq> [] \<and> posted = Inr r \<and> status_code r = 200 \<and>
    response_json r = Inr (JObj kvs) \<and> map_of kvs (ustr ''OCRExitCode'') = Some (JInt 1) \<and>
    map_of kvs (ustr ''ParsedResults'') = Some (JArr pages) \<and>
    list_all2 (\<lambda>page t. \<exists>pkvs. page = JObj pkvs \<and>
                 map_of pkvs (ustr ''ParsedText'') = Some (JStr t)) pages texts \<longrightarrow>
      extract_text_from_image_ocrspace ocr_api_key posted = concat texts)"
  using append_pages_texts [of pages texts "[]"]
  by (auto simp: extract_text_from_image_ocrspace_def extract_text_body_def split: sum.splits)

theorem extract_text_spec_witness:
  "extract_text_from_image_ocrspace (ustr ''key'')
     (ocr_answer 200 1 [ustr ''Leaderboard '', ustr ''Merrick - 1.23'']) =
     ustr ''Leaderboard Merrick - 1.23'' \<and>
   extract_text_from_image_ocrspace (ustr ''key'') (ocr_answer 500 1 [ustr ''Vy = 4.56'']) = [] \<and>
   extract_text_from_image_ocrspace (ustr ''key'') (ocr_answer 200 3 [ustr ''Vy = 4.56'']) = [] \<and>
   extract_text_from_image_ocrspace (ustr ''key'') (Inl ExternalError) = [] \<and>
   extract_text_from_image_ocrspace [] (ocr_answer 200 1 [ustr ''Vy = 4.56'']) = []"
proof -
  let ?kvs = "\<lambda>code texts. [(ustr ''ParsedResults'', JArr (map page_of texts)),
                       (ustr ''OCRExitCode'', JInt code)]"
  let ?r = "\<lambda>status code texts. \<lparr>status_code = status, response_json = Inr (JObj (?kvs code texts))\<rparr>"
  let ?ts = "[ustr ''Leaderboard '', ustr ''Merrick - 1.23'']"
  have pages: "list_all2 (\<lambda>page t. \<exists>pkvs. page = JObj pkvs \<and>
                 map_of pkvs (ustr ''ParsedText'') = Some (JStr t)) (map page_of ?ts) ?ts"
    by (simp add: page_of_def)
  have keys: "map_of (?kvs 1 ?ts) (ustr ''OCRExitCode'') = Some (JInt 1)"
    "map_of (?kvs 1 ?ts) (ustr ''ParsedResults'') = Some (JArr (map page_of ?ts))"
    "ustr ''key'' \<noteq> []"
    by (simp_all add: ustr_def)
  have code3: "subscript (JObj (?kvs 3 [ustr ''Vy = 4.56''])) (ustr ''OCRExitCode'') = Inr (JInt 3)"
    "ne_one (JInt 3)"
    by (simp_all add: ustr_def)
  have cat: "concat ?ts = ustr ''Leaderboard Merrick - 1.23''"
    by (simp add: ustr_def)
  show ?thesis
    using pages keys code3 cat
      extract_text_spec [of "ustr ''key''" "ocr_answer 200 1 ?ts" _ "?r 200 1 ?ts" _ _ "?kvs 1 ?ts"
        "map page_of ?ts" ?ts]
      extract_text_spec [of "ustr ''key''" "ocr_answer 500 1 [ustr ''Vy = 4.56'']" _
        "?r 500 1 [ustr ''Vy = 4.56'']"]
      extract_text_spec [of "ustr ''key''" "ocr_answer 200 3 [ustr ''Vy = 4.56'']" _
        "?r 200 3 [ustr ''Vy = 4.56'']" "JObj (?kvs 3 [ustr ''Vy = 4.56''])" "JInt 3"]
      extract_text_spec [of "ustr ''key''" "Inl ExternalError" ExternalError]
      extract_text_spec [of "[]" "ocr_answer 200 1 [ustr ''Vy = 4.56'']"]
    by (simp add: ocr_answer_def)
qed

section \<open>The parser is a function of the text\<close>



section \<open>Regular expression matching\<close>

lemma rx_match_lits_prefix:
  "rx_match (lits name @ qs) ing s = Some g \<Longrightarrow> ci_prefix name s"
proof (induction name arbitrary: s g)
  case Nil
  then show ?case by simp
next
  case (Cons p ps)
  then show ?case
    by (cases s) (auto simp: lits_def split: if_splits)
qed

lemma rx_search_lits_occurs:
  "rx_search (lits name @ qs) text = Some g \<Longrightarrow> ci_occurs name text"
proof (induction "text")
  case Nil
  then show ?case by (auto dest: rx_match_lits_prefix)
next
  case (Cons c cs)
  then show ?case
    by (auto split: option.splits dest: rx_match_lits_prefix)
qed

lemma rx_match_many0_plain:
  assumes "\<And>s g. rx_match rest False s = Some g \<Longrightarrow> Q g"
  shows "rx_match (Many0 a # rest) False s = Some g \<Longrightarrow> Q g"
proof (induction s)
  case Nil
  then show ?case using assms by simp
next
  case (Cons c cs)
  then show ?case using assms
    by (auto simp: keep_def split: if_splits option.splits)
qed

lemma rx_match_plain:
  "plain ps \<Longrightarrow> rx_match (ps @ qs) False s = Some g \<Longrightarrow> \<exists>s'. rx_match qs False s' = Some g"
proof (induction ps arbitrary: s g)
  case Nil
  then show ?case by auto
next
  case (Cons p ps)
  from Cons.prems(1) have pl: "plain ps" by (auto simp: plain_def)
  note IH = Cons.IH [OF pl]
  show ?case
  proof (cases p)
    case (Once a)
    with Cons.prems(2) show ?thesis
      by (cases s) (auto simp: keep_def split: if_splits dest: IH)
  next
    case (Many0 a)
    show ?thesis
      using Cons.prems(2) rx_match_many0_plain [of "ps @ qs" "\<lambda>g. \<exists>s'. rx_match qs False s' = Some g" a s g] IH
      unfolding Many0 by auto
  next
    case (Many1 a)
    show ?thesis
    proof (cases s)
      case Nil
      with Cons.prems(2) Many1 show ?thesis by simp
    next
      case (Cons c cs)
      with Cons.prems(2) Many1 have "rx_match (Many0 a # ps @ qs) False cs = Some g"
        by (auto simp: keep_def split: if_splits)
      then show ?thesis
        using rx_match_many0_plain [of "ps @ qs" "\<lambda>g. \<exists>s'. rx_match qs False s' = Some g" a cs g] IH
        by auto
    qed
  next
    case GroupOpen
    with Cons.prems(1) show ?thesis by (simp add: plain_def)
  next
    case GroupClose
    with Cons.prems(1) show ?thesis by (simp add: plain_def)
  qed
qed

lemma rx_match_many0_digits:
  "rx_match (Many0 Digit # qs) True s = Some g \<Longrightarrow>
   \<exists>ds g' s'. list_all uni_isdecimal ds \<and> g = ds @ g' \<and> rx_match qs True s' = Some g'"
proof (induction s arbitrary: g)
  case Nil
  then have "rx_match qs True [] = Some g" by simp
  then have "list_all uni_isdecimal [] \<and> g = [] @ g \<and> rx_match qs True [] = Some g" by simp
  then show ?case by blast
next
  case (Cons c cs)
  show ?case
  proof (cases "uni_isdecimal c")
    case False
    with Cons.prems have "rx_match qs True (c # cs) = Some g" by simp
    then have "list_all uni_isdecimal [] \<and> g = [] @ g \<and> rx_match qs True (c # cs) = Some g"
      by simp
    then show ?thesis by blast
  next
    case True
    show ?thesis
    proof (cases "rx_match (Many0 Digit # qs) True cs")
      case None
      with Cons.prems True have "rx_match qs True (c # cs) = Some g" by simp
      then have "list_all uni_isdecimal [] \<and> g = [] @ g \<and> rx_match qs True (c # cs) = Some g"
      by simp
    then show ?thesis by blast
    next
      case (Some g1)
      with Cons.prems True have g: "g = c # g1" by (simp add: keep_def)
      from Cons.IH [OF Some] obtain ds g' s' where
        "list_all uni_isdecimal ds" "g1 = ds @ g'" "rx_match qs True s' = Some g'" by blast
      then have "list_all uni_isdecimal (c # ds) \<and> g = (c # ds) @ g' \<and>
          rx_match qs True s' = Some g'"
        using True g by simp
      then show ?thesis by blast
    qed
  qed
qed

lemma rx_match_many1_digits:
  assumes "rx_match (Many1 Digit # qs) True s = Some g"
  shows "\<exists>ds g' s'. ds \<noteq> [] \<and> list_all uni_isdecimal ds \<and> g = ds @ g' \<and> rx_match qs True s' = Some g'"
proof (cases s)
  case Nil
  with assms show ?thesis by simp
next
  case (Cons c cs)
  with assms obtain g1 where c: "uni_isdecimal c" and g: "g = c # g1"
    and m: "rx_match (Many0 Digit # qs) True cs = Some g1"
    by (auto simp: keep_def split: if_splits)
  from rx_match_many0_digits [OF m] obtain ds g' s' where
    "list_all uni_isdecimal ds" "g1 = ds @ g'" "rx_match qs True s' = Some g'" by blast
  then have "c # ds \<noteq> [] \<and> list_all uni_isdecimal (c # ds) \<and> g = (c # ds) @ g' \<and>
      rx_match qs True s' = Some g'"
    using c g by simp
  then show ?thesis by blast
qed

lemma not_decimal_point: "\<not> uni_isdecimal 46"
  by (simp add: uni_isdecimal_def uni_todecimal_def nd_zeros_def)

lemma decimal_captureI:
  assumes "ip \<noteq> []" "fp \<noteq> []" "list_all uni_isdecimal ip" "list_all uni_isdecimal fp"
  shows "decimal_capture (ip @ 46 # fp)"
proof -
  have "takeWhile uni_isdecimal (ip @ 46 # fp) = ip"
    using assms(3) not_decimal_point by (simp add: takeWhile_append2 list_all_iff)
  moreover have "dropWhile uni_isdecimal (ip @ 46 # fp) = 46 # fp"
    using assms(3) not_decimal_point by (simp add: dropWhile_append2 list_all_iff)
  ultimately show ?thesis using assms by (simp add: decimal_capture_def)
qed

lemma decimal_captureD:
  assumes "decimal_capture g"
  shows "\<exists>ip fp. g = ip @ 46 # fp \<and> ip \<noteq> [] \<and> fp \<noteq> [] \<and>
           list_all uni_isdecimal ip \<and> list_all uni_isdecimal fp"
proof -
  let ?ip = "takeWhile uni_isdecimal g" and ?r = "dropWhile uni_isdecimal g"
  from assms have a: "?ip \<noteq> []" "?r \<noteq> []" "hd ?r = 46" "tl ?r \<noteq> []" "list_all uni_isdecimal (tl ?r)"
    by (simp_all add: decimal_capture_def Let_def)
  have "g = ?ip @ ?r" by simp
  also have "?r = 46 # tl ?r" using a(2,3) by (cases ?r) auto
  finally have "g = ?ip @ 46 # tl ?r" .
  moreover have "list_all uni_isdecimal ?ip" by (simp add: list_all_iff) (meson set_takeWhileD)
  ultimately show ?thesis using a by blast
qed

lemma rx_match_number_group:
  assumes "rx_match number_group ing s = Some g"
  shows "decimal_capture g"
proof -
  from assms have "rx_match (Many1 Digit # [Once (Lit 46), Many1 Digit, GroupClose]) True s = Some g"
    by (simp add: number_group_def)
  from rx_match_many1_digits [OF this] obtain ip g1 s1 where
    ip: "ip \<noteq> []" "list_all uni_isdecimal ip" and g: "g = ip @ g1"
    and m1: "rx_match [Once (Lit 46), Many1 Digit, GroupClose] True s1 = Some g1" by blast
  from m1 obtain c cs g2 where "s1 = c # cs" and g1: "g1 = c # g2" and c: "c = 46"
    and m2: "rx_match (Many1 Digit # [GroupClose]) True cs = Some g2"
    by (cases s1) (auto simp: keep_def ignorecase_set_def ascii_lower_def split: if_splits)
  from rx_match_many1_digits [OF m2] obtain fp g3 s3 where
    fp: "fp \<noteq> []" "list_all uni_isdecimal fp" and g2: "g2 = fp @ g3"
    and m3: "rx_match [GroupClose] True s3 = Some g3" by blast
  from m3 have "g3 = []" by simp
  then have "g = ip @ 46 # fp" using g g1 g2 c by simp
  then show ?thesis using decimal_captureI [OF ip(1) fp(1) ip(2) fp(2)] by simp
qed

lemma plain_lits: "plain (lits s)"
  by (auto simp: plain_def lits_def)

lemma plain_append: "plain (xs @ ys) \<longleftrightarrow> plain xs \<and> plain ys"
  by (auto simp: plain_def)

lemma plain_Cons:
  "plain (p # ps) \<longleftrightarrow> p \<noteq> GroupOpen \<and> p \<noteq> GroupClose \<and> plain ps"
  by (auto simp: plain_def)

lemma plain_Nil: "plain []"
  by (simp add: plain_def)

lemma rx_search_plain_group:
  assumes "plain ps" "rx_search (ps @ number_group) text = Some g"
  shows "decimal_capture g"
  using assms(2)
proof (induction "text")
  case Nil
  then show ?case using rx_match_plain [OF assms(1)] rx_match_number_group by (metis rx_search.simps(1))
next
  case (Cons c cs)
  show ?case
  proof (cases "rx_match (ps @ number_group) False (c # cs)")
    case None
    with Cons show ?thesis by simp
  next
    case (Some g')
    with Cons.prems have "g' = g" by simp
    with Some show ?thesis using rx_match_plain [OF assms(1)] rx_match_number_group by blast
  qed
qed

lemma pattern_forms:
  assumes "p \<in> set (patterns_ocrspace name)"
  shows "\<exists>qs. plain qs \<and> p = lits name @ qs @ number_group"
proof -
  from assms consider "p = pat_colon name" | "p = pat_hyphen name" | "p = pat_space name"
    | "p = pat_time name" | "p = pat_equals name"
    by (auto simp: patterns_ocrspace_def)
  then show ?thesis
  proof cases
    case 1
    then show ?thesis
      by (intro exI [of _ "lits '':'' @ [Many0 Space]"])
        (simp add: pat_colon_def plain_append plain_lits plain_Cons plain_Nil)
  next
    case 2
    then show ?thesis
      by (intro exI [of _ "[Many0 Space] @ lits ''-'' @ [Many0 Space]"])
        (simp add: pat_hyphen_def plain_append plain_lits plain_Cons plain_Nil)
  next
    case 3
    then show ?thesis
      by (intro exI [of _ "[Many1 Space]"])
        (simp add: pat_space_def plain_append plain_lits plain_Cons plain_Nil)
  next
    case 4
    then show ?thesis
      by (intro exI [of _ "lits [CHR 0x27] @ lits ''s time:'' @ [Many0 Space]"])
        (simp add: pat_time_def plain_append plain_lits plain_Cons plain_Nil)
  next
    case 5
    then show ?thesis
      by (intro exI [of _ "[Many0 Space] @ lits ''='' @ [Many0 Space]"])
        (simp add: pat_equals_def plain_append plain_lits plain_Cons plain_Nil)
  qed
qed

lemma patterns_local_subset: "set (patterns_local name) \<subseteq> set (patterns_ocrspace name)"
  by (auto simp: patterns_local_def patterns_ocrspace_def)

lemma pattern_capture:
  assumes "p \<in> set (patterns_ocrspace name)" "rx_search p text = Some g"
  shows "decimal_capture g" "ci_occurs name text"
proof -
  from pattern_forms [OF assms(1)] obtain qs where qs: "plain qs" "p = lits name @ qs @ number_group"
    by blast
  from assms(2) qs show "ci_occurs name text" by (auto dest: rx_search_lits_occurs)
  have "plain (lits name @ qs)" using qs(1) by (simp add: plain_append plain_lits)
  then show "decimal_capture g" using assms(2) qs(2) rx_search_plain_group [of "lits name @ qs" "text" g]
    by simp
qed

section \<open>\<open>float\<close> of a captured number\<close>

lemma uni_todecimal_run:
  assumes "uni_todecimal c = Some d"
  shows "\<exists>z \<in> set nd_zeros. z \<le> c \<and> c < z + 10 \<and> d = c - z"
proof -
  from assms obtain z where "find (\<lambda>z. z \<le> c \<and> c < z + 10) nd_zeros = Some z" "d = c - z"
    by (auto simp: uni_todecimal_def)
  then show ?thesis by (auto simp: find_Some_iff)
qed

lemma uni_todecimal_lt10: "uni_todecimal c = Some d \<Longrightarrow> d < 10"
  by (drule uni_todecimal_run) auto

lemma ascii_decimal:
  assumes "uni_isdecimal c" "c < 128"
  shows "ascii_isdigit c"
proof -
  from assms(1) obtain d where "uni_todecimal c = Some d" by (auto simp: uni_isdecimal_def)
  from uni_todecimal_run [OF this] obtain z where z: "z \<in> set nd_zeros" "z \<le> c" "c < z + 10"
    by blast
  from z(1,2) assms(2) have "z = 48" by (auto simp: nd_zeros_def)
  with z show ?thesis by (simp add: ascii_isdigit_def)
qed

lemma space_not_decimal:
  assumes "uni_isspace c"
  shows "\<not> uni_isdecimal c"
proof
  assume "uni_isdecimal c"
  then obtain d where "uni_todecimal c = Some d" by (auto simp: uni_isdecimal_def)
  from uni_todecimal_run [OF this] obtain z where z: "z \<in> set nd_zeros" "z \<le> c" "c < z + 10"
    by blast
  from z(1) have "z = 48 \<or> (1632 \<le> z \<and> z \<le> 4240) \<or> (6112 \<le> z \<and> z \<le> 7248) \<or> 42528 \<le> z"
    by (auto simp: nd_zeros_def)
  with z(2,3) assms show False by (auto simp: uni_isspace_def)
qed

lemma float_transform_decimal:
  assumes "uni_isdecimal c"
  shows "ascii_isdigit (float_transform c)"
proof (cases "c < 128")
  case True
  with assms show ?thesis by (simp add: float_transform_def ascii_decimal)
next
  case False
  from assms obtain d where d: "uni_todecimal c = Some d" by (auto simp: uni_isdecimal_def)
  with False assms space_not_decimal [of c] uni_todecimal_lt10 [OF d] show ?thesis
    by (auto simp: float_transform_def ascii_isdigit_def)
qed

lemma float_transform_digits:
  "list_all uni_isdecimal ds \<Longrightarrow> list_all ascii_isdigit (map float_transform ds)"
  by (induction ds) (auto simp: float_transform_decimal)

lemma takeWhile_run: "list_all P xs \<Longrightarrow> \<not> P y \<Longrightarrow> takeWhile P (xs @ y # ys) = xs"
  by (induction xs) auto

lemma dropWhile_run: "list_all P xs \<Longrightarrow> \<not> P y \<Longrightarrow> dropWhile P (xs @ y # ys) = y # ys"
  by (induction xs) auto

lemma not_digit_point: "\<not> ascii_isdigit 46"
  by (simp add: ascii_isdigit_def)

lemma parse_decimal_plain:
  assumes "ip \<noteq> []" "fp \<noteq> []" "list_all ascii_isdigit ip" "list_all ascii_isdigit fp"
  shows "parse_decimal (ip @ 46 # fp) =
           Some (scale 10 (- int (length fp)) (digits_value (ip @ fp), 1))"
proof -
  have 1: "takeWhile ascii_isdigit (ip @ 46 # fp) = ip"
    using assms(3) not_digit_point by (rule takeWhile_run)
  have 2: "dropWhile ascii_isdigit (ip @ 46 # fp) = 46 # fp"
    using assms(3) not_digit_point by (rule dropWhile_run)
  have 3: "takeWhile ascii_isdigit fp = fp" "dropWhile ascii_isdigit fp = []"
    using assms(4) by (simp_all add: list_all_iff)
  show ?thesis
    unfolding parse_decimal_def 1 2 using assms(1) by (simp add: 3 parse_exponent_def)
qed

lemma py_float_plain:
  assumes "ip \<noteq> []" "fp \<noteq> []" "list_all ascii_isdigit ip" "list_all ascii_isdigit fp"
    and t: "map float_transform g = ip @ 46 # fp"
  shows "py_float g = Some (round_binary64 False (scale 10 (- int (length fp)) (digits_value (ip @ fp), 1)))"
proof -
  let ?t = "ip @ 46 # fp"
  have all: "\<forall>c \<in> set ?t. ascii_isdigit c \<or> c = 46"
    using assms(3,4) by (auto simp: list_all_iff)
  have hd: "ascii_isdigit (hd ?t)" using assms(1,3) by (cases ip) auto
  have last: "ascii_isdigit (last ?t)" using assms(2,4) by (auto simp: list_all_iff)
  have strip: "strip_space ?t = ?t"
    using hd last by (intro strip_space_id) (auto dest: isdigit_props)
  have under: "remove_underscores 0 ?t = Some ?t"
    using all by (intro remove_underscores_id) (auto dest: isdigit_props)
  have sign: "split_sign ?t = (False, ?t)"
    using hd assms(1) by (cases ip) (auto simp: split_sign_def dest: isdigit_props)
  have "hd (map ascii_lower ?t) = hd ?t"
    using hd assms(1) by (cases ip) (auto simp: ascii_lower_def ascii_isdigit_def)
  then have "ascii_isdigit (hd (map ascii_lower ?t))" using hd by simp
  then have body: "map ascii_lower ?t \<noteq> ustr ''inf''" "map ascii_lower ?t \<noteq> ustr ''infinity''"
    "map ascii_lower ?t \<noteq> ustr ''nan''"
    by (auto simp: ustr_def ascii_isdigit_def)
  show ?thesis
    unfolding py_float_def t strip under
    using body by (simp add: sign Let_def parse_decimal_plain [OF assms(1-4)])
qed

lemma py_float_capture:
  assumes "decimal_capture g"
  shows "py_float g = Some (round_binary64 False (capture_value g))"
proof -
  from decimal_captureD [OF assms] obtain ip fp where
    g: "g = ip @ 46 # fp" and ne: "ip \<noteq> []" "fp \<noteq> []"
    and d: "list_all uni_isdecimal ip" "list_all uni_isdecimal fp" by blast
  let ?ip = "map float_transform ip" and ?fp = "map float_transform fp"
  have t: "map float_transform g = ?ip @ 46 # ?fp" by (simp add: g float_transform_def)
  have dig: "list_all ascii_isdigit ?ip" "list_all ascii_isdigit ?fp"
    using d by (simp_all add: float_transform_digits)
  have ne': "?ip \<noteq> []" "?fp \<noteq> []" using ne by simp_all
  have 1: "takeWhile ascii_isdigit (?ip @ 46 # ?fp) = ?ip"
    using dig(1) not_digit_point by (rule takeWhile_run)
  have 2: "dropWhile ascii_isdigit (?ip @ 46 # ?fp) = 46 # ?fp"
    using dig(1) not_digit_point by (rule dropWhile_run)
  have v: "capture_value g = scale 10 (- int (length ?fp)) (digits_value (?ip @ ?fp), 1)"
    by (simp add: capture_value_def Let_def t 1 2)
  show ?thesis using py_float_plain [OF ne' dig t] v by simp
qed

lemma round_binary64_sign:
  "(\<exists>m e. round_binary64 neg x = Finite neg m e) \<or> round_binary64 neg x = Infinity neg"
  by (simp add: round_binary64_def Let_def)

lemma round_binary64_nonnegative: "nonnegative (round_binary64 False x)"
  using round_binary64_sign [of False x] by auto

section \<open>The loops of the parser\<close>

lemma try_patterns_Some:
  "try_patterns ps tx = Some v \<Longrightarrow>
   \<exists>p \<in> set ps. \<exists>g x. rx_search p tx = Some g \<and> py_float g = Some x \<and> v = py_str x"
  by (induction ps) (auto split: option.splits)

lemma try_patterns_first:
  assumes "\<forall>q \<in> set qs. rx_search q tx = None" "rx_search p tx = Some g" "py_float g = Some x"
  shows "try_patterns (qs @ p # rs) tx = Some (py_str x)"
  using assms by (induction qs) auto

lemma try_patterns_skip:
  assumes "\<forall>q \<in> set qs. rx_search q tx = None \<or> (\<exists>g. rx_search q tx = Some g \<and> py_float g = None)"
  shows "try_patterns (qs @ rs) tx = try_patterns rs tx"
  using assms by (induction qs) auto

lemma try_patterns_None:
  assumes "\<forall>q \<in> set ps. rx_search q tx = None \<or> (\<exists>g. rx_search q tx = Some g \<and> py_float g = None)"
  shows "try_patterns ps tx = None"
  using try_patterns_skip [OF assms, of "[]"] by simp

lemma parse_names_other:
  "k \<notin> ustr ` set names \<Longrightarrow> parse_names names tx data k = data k"
  by (induction names arbitrary: data) (auto split: option.splits)

lemma parse_names_name:
  assumes "distinct (map ustr names)" "name \<in> set names"
  shows "parse_names names tx data (ustr name) =
    (case try_patterns (patterns_ocrspace name) tx of Some v \<Rightarrow> Some v | None \<Rightarrow> data (ustr name))"
  using assms
proof (induction names arbitrary: data)
  case Nil
  then show ?case by simp
next
  case (Cons n ns)
  show ?case
  proof (cases "name = n")
    case True
    with Cons.prems(1) have "ustr name \<notin> ustr ` set ns" by auto
    then show ?thesis using True by (simp add: parse_names_other split: option.splits)
  next
    case False
    with Cons.prems have "name \<in> set ns" "distinct (map ustr ns)" "ustr n \<noteq> ustr name" by auto
    then show ?thesis using Cons.IH [of "case try_patterns (patterns_ocrspace n) tx of
          Some v \<Rightarrow> data(ustr n \<mapsto> v) | None \<Rightarrow> data"]
      by (auto split: option.splits)
  qed
qed

lemma distinct_player_names: "distinct (map ustr player_names)"
  by (simp add: player_names_def ustr_def)

lemma parse_leaderboard_data_name:
  "name \<in> set player_names \<Longrightarrow>
   parse_leaderboard_data tx (ustr name) = try_patterns (patterns_ocrspace name) tx"
  using parse_names_name [OF distinct_player_names, of name tx "Map.empty"]
  by (simp add: parse_leaderboard_data_def split: option.splits)

lemma parse_leaderboard_data_other:
  "k \<notin> ustr ` set player_names \<Longrightarrow> parse_leaderboard_data tx k = None"
  by (simp add: parse_leaderboard_data_def parse_names_other)

lemma try_patterns_local_total:
  assumes "set ps \<subseteq> set (patterns_ocrspace name)"
  shows "try_patterns_local ps tx = Inr (try_patterns ps tx)"
  using assms
proof (induction ps)
  case Nil
  then show ?case by simp
next
  case (Cons p ps)
  then have p: "p \<in> set (patterns_ocrspace name)" by simp
  show ?case
  proof (cases "rx_search p tx")
    case None
    with Cons show ?thesis by simp
  next
    case (Some g)
    from pattern_capture(1) [OF p Some] have "py_float g = Some (round_binary64 False (capture_value g))"
      by (rule py_float_capture)
    with Some show ?thesis by simp
  qed
qed

lemma parse_names_local_total:
  "\<exists>m. parse_names_local names tx data = Inr m"
  by (induction names arbitrary: data)
    (auto simp: try_patterns_local_total [OF patterns_local_subset] split: option.splits)

lemma parse_names_local_other:
  "parse_names_local names tx data = Inr m \<Longrightarrow> k \<notin> ustr ` set names \<Longrightarrow> m k = data k"
  by (induction names arbitrary: data)
    (auto simp: try_patterns_local_total [OF patterns_local_subset] split: option.splits)

lemma parse_names_local_name:
  assumes "distinct (map ustr names)" "name \<in> set names" "parse_names_local names tx data = Inr m"
  shows "m (ustr name) =
    (case try_patterns (patterns_local name) tx of Some v \<Rightarrow> Some v | None \<Rightarrow> data (ustr name))"
  using assms
proof (induction names arbitrary: data)
  case Nil
  then show ?case by simp
next
  case (Cons n ns)
  note tot = try_patterns_local_total [OF patterns_local_subset]
  let ?data = "case try_patterns (patterns_local n) tx of Some v \<Rightarrow> data(ustr n \<mapsto> v) | None \<Rightarrow> data"
  from Cons.prems(3) have m: "parse_names_local ns tx ?data = Inr m"
    by (auto simp: tot split: option.splits)
  show ?case
  proof (cases "name = n")
    case True
    with Cons.prems(1) have "ustr name \<notin> ustr ` set ns" by auto
    from parse_names_local_other [OF m this] show ?thesis
      using True by (simp split: option.splits)
  next
    case False
    with Cons.prems have "name \<in> set ns" "distinct (map ustr ns)" "ustr n \<noteq> ustr name" by auto
    then show ?thesis using Cons.IH [OF _ _ m] by (auto split: option.splits)
  qed
qed

lemma parse_leaderboard_data_local_name:
  "parse_leaderboard_data_local tx = Inr m \<Longrightarrow> name \<in> set player_names \<Longrightarrow>
   m (ustr name) = try_patterns (patterns_local name) tx"
  using parse_names_local_name [OF distinct_player_names, of name tx "Map.empty" m]
  by (simp add: parse_leaderboard_data_local_def split: option.splits)

lemma parse_leaderboard_data_local_other:
  "parse_leaderboard_data_local tx = Inr m \<Longrightarrow> k \<notin> ustr ` set player_names \<Longrightarrow> m k = None"
  using parse_names_local_other [of player_names tx "Map.empty" m k]
  by (simp add: parse_leaderboard_data_local_def)

lemma try_patterns_occurs:
  assumes "set ps \<subseteq> set (patterns_ocrspace name)" "try_patterns ps tx = Some v"
  shows "ci_occurs name tx"
proof -
  from try_patterns_Some [OF assms(2)] obtain p g where "p \<in> set ps" "rx_search p tx = Some g"
    by blast
  with assms(1) show ?thesis using pattern_capture(2) [of p name tx g] by auto
qed

section \<open>Rounding to binary64\<close>

lemma ndigits_from_floorlog: "ndigits_from k b n = k + floorlog b n"
proof (induction k b n rule: ndigits_from.induct)
  case (1 k b n)
  show ?case
  proof (cases "n = 0 \<or> b < 2")
    case True
    then show ?thesis by (subst ndigits_from.simps) (auto simp: floorlog_def)
  next
    case False
    then have "ndigits_from k b n = ndigits_from (k + 1) b (n div b)"
      by (subst ndigits_from.simps) simp
    also have "\<dots> = k + 1 + floorlog b (n div b)" using "1.IH" [OF False] .
    also have "\<dots> = k + floorlog b n" using False by (subst (2) compute_floorlog) simp
    finally show ?thesis .
  qed
qed

lemma ndigits_floorlog: "ndigits b n = floorlog b n"
  by (simp add: ndigits_def ndigits_from_floorlog)

lemma frac_val_le:
  assumes "0 < snd a" "0 < snd c"
  shows "fst a * snd c \<le> fst c * snd a \<longleftrightarrow> frac_val a \<le> frac_val c"
proof -
  have "frac_val a \<le> frac_val c \<longleftrightarrow>
        (of_nat (fst a) :: rat) * of_nat (snd c) \<le> of_nat (fst c) * of_nat (snd a)"
    using assms by (simp add: frac_val_def field_simps)
  also have "\<dots> \<longleftrightarrow> fst a * snd c \<le> fst c * snd a"
    by (metis of_nat_le_iff of_nat_mult)
  finally show ?thesis by simp
qed

lemma frac_val_scale:
  assumes "0 < b"
  shows "frac_val (scale b k x) = frac_val x * of_nat b powi k"
proof (cases "0 \<le> k")
  case True
  then show ?thesis by (simp add: scale_def frac_val_def power_int_def)
next
  case False
  then show ?thesis using assms
    by (simp add: scale_def frac_val_def power_int_def field_simps)
qed

lemma snd_scale: "0 < b \<Longrightarrow> 0 < snd x \<Longrightarrow> 0 < snd (scale b k x)"
  by (simp add: scale_def)

lemma fst_scale: "0 < b \<Longrightarrow> 0 < fst x \<Longrightarrow> 0 < fst (scale b k x)"
  by (simp add: scale_def)

lemma floor_log_bounds:
  assumes "0 < fst x" "0 < snd x" "2 \<le> b"
  shows "of_nat b powi floor_log b x \<le> frac_val x"
    and "frac_val x < of_nat b powi (floor_log b x + 1)"
proof -
  let ?B = "of_nat b :: rat"
  let ?la = "ndigits b (fst x)" and ?ld = "ndigits b (snd x)"
  let ?k = "int ?la - int ?ld"
  have B: "1 < ?B" "0 < ?B" "?B \<noteq> 0" using assms(3) by auto
  have b1: "1 < b" using assms(3) by simp
  from floorlog_bounds [OF assms(1) b1] have n: "b ^ (?la - 1) \<le> fst x" "fst x < b ^ ?la"
    by (simp_all add: ndigits_floorlog)
  from floorlog_bounds [OF assms(2) b1] have d: "b ^ (?ld - 1) \<le> snd x" "snd x < b ^ ?ld"
    by (simp_all add: ndigits_floorlog)
  have "floorlog b (fst x) \<noteq> 0" "floorlog b (snd x) \<noteq> 0"
    using assms(1,2) b1 by (simp_all add: floorlog_eq_zero_iff)
  then have la: "0 < ?la" and ld: "0 < ?ld"
    by (simp_all add: ndigits_floorlog)
  have nr: "?B ^ (?la - 1) \<le> of_nat (fst x)" "of_nat (fst x) < ?B ^ ?la"
    using n by (metis of_nat_le_iff of_nat_power, metis of_nat_less_iff of_nat_power)
  have dr: "?B ^ (?ld - 1) \<le> of_nat (snd x)" "of_nat (snd x) < ?B ^ ?ld"
    using d by (metis of_nat_le_iff of_nat_power, metis of_nat_less_iff of_nat_power)
  have dpos: "(0::rat) < of_nat (snd x)" using assms(2) by simp
  have npos: "(0::rat) < of_nat (fst x)" using assms(1) by simp
  have up: "frac_val x < ?B powi (?k + 1)"
  proof -
    have "frac_val x < ?B ^ ?la / of_nat (snd x)"
      using nr(2) dpos by (simp add: frac_val_def divide_strict_right_mono)
    also have "\<dots> \<le> ?B ^ ?la / ?B ^ (?ld - 1)"
      using dr(1) B dpos by (intro divide_left_mono) (auto intro!: mult_pos_pos)
    also have "\<dots> = ?B powi (int ?la - int (?ld - 1))"
      using B by (simp add: power_int_diff)
    also have "int ?la - int (?ld - 1) = ?k + 1" using ld by simp
    finally show ?thesis .
  qed
  have low: "?B powi (?k - 1) < frac_val x"
  proof -
    have "?k - 1 = int (?la - 1) - int ?ld" using la by (simp add: of_nat_diff)
    then have "?B powi (?k - 1) = ?B powi (int (?la - 1) - int ?ld)" by (rule arg_cong)
    also have "\<dots> = ?B ^ (?la - 1) / ?B ^ ?ld" using B by (simp add: power_int_diff)
    also have "\<dots> < ?B ^ (?la - 1) / of_nat (snd x)"
      using dr(2) dpos B by (intro divide_strict_left_mono) (auto intro!: mult_pos_pos)
    also have "\<dots> \<le> frac_val x"
      using nr(1) dpos by (simp add: frac_val_def divide_right_mono)
    finally show ?thesis .
  qed
  have p: "frac_val (scale b ?k (1, 1)) = ?B powi ?k" "0 < snd (scale b ?k (1, 1))"
    using b1 by (simp_all add: frac_val_scale snd_scale) (simp add: frac_val_def)
  have test: "fst (scale b ?k (1, 1)) * snd x \<le> fst x * snd (scale b ?k (1, 1)) \<longleftrightarrow>
      ?B powi ?k \<le> frac_val x"
    using frac_val_le [OF p(2) assms(2)] p(1) by simp
  show "of_nat b powi floor_log b x \<le> frac_val x"
    using test low by (auto simp: floor_log_def Let_def)
  show "frac_val x < of_nat b powi (floor_log b x + 1)"
    using test up by (auto simp: floor_log_def Let_def)
qed

lemma round_half_even_cases:
  assumes "0 < snd x"
  obtains q r where "frac_val x = of_nat q + r" "0 \<le> r" "r < 1"
    "round_half_even x =
       (if r < 1 / 2 then q else if 1 / 2 < r then q + 1 else if even q then q else q + 1)"
proof -
  let ?n = "fst x" and ?d = "snd x"
  let ?q = "?n div ?d" and ?m = "?n mod ?d"
  let ?r = "of_nat ?m / of_nat ?d :: rat"
  have d: "(0::rat) < of_nat ?d" using assms by simp
  have "(of_nat ?n :: rat) = of_nat (?q * ?d + ?m)" by simp
  also have "\<dots> = of_nat ?q * of_nat ?d + of_nat ?m" by (simp only: of_nat_add of_nat_mult)
  finally have 1: "frac_val x = of_nat ?q + ?r"
    using d by (simp add: frac_val_def field_simps)
  have 2: "0 \<le> ?r" by simp
  have "?m < ?d" using assms by simp
  then have 3: "?r < 1" using d by simp
  have a: "2 * ?m < ?d \<longleftrightarrow> ?r < 1 / 2"
  proof -
    have "?r < 1 / 2 \<longleftrightarrow> (of_nat (2 * ?m) :: rat) < of_nat ?d"
      using d by (simp add: field_simps)
    then show ?thesis by (simp only: of_nat_less_iff)
  qed
  have b: "?d < 2 * ?m \<longleftrightarrow> 1 / 2 < ?r"
  proof -
    have "1 / 2 < ?r \<longleftrightarrow> (of_nat ?d :: rat) < of_nat (2 * ?m)"
      using d by (simp add: field_simps)
    then show ?thesis by (simp only: of_nat_less_iff)
  qed
  have 4: "round_half_even x =
       (if ?r < 1 / 2 then ?q else if 1 / 2 < ?r then ?q + 1 else if even ?q then ?q else ?q + 1)"
    unfolding round_half_even_def Let_def a b ..
  show thesis using that [OF 1 2 3 4] .
qed

lemma round_half_even_floor:
  assumes "0 < snd x" "of_nat N \<le> frac_val x"
  shows "N \<le> round_half_even x"
proof -
  obtain q r where c: "frac_val x = of_nat q + r" "0 \<le> r" "r < 1"
    "round_half_even x =
       (if r < 1 / 2 then q else if 1 / 2 < r then q + 1 else if even q then q else q + 1)"
    using round_half_even_cases [OF assms(1)] by blast
  have "(of_nat N :: rat) < of_nat (q + 1)" using assms(2) c(1,3) by simp
  then have "N < q + 1" by (simp only: of_nat_less_iff)
  then show ?thesis using c(4) by auto
qed

lemma round_half_even_upper:
  assumes "0 < snd x" "frac_val x < of_nat N + 1 / 2"
  shows "round_half_even x \<le> N"
proof -
  obtain q r where c: "frac_val x = of_nat q + r" "0 \<le> r" "r < 1"
    "round_half_even x =
       (if r < 1 / 2 then q else if 1 / 2 < r then q + 1 else if even q then q else q + 1)"
    using round_half_even_cases [OF assms(1)] by blast
  have "(of_nat q :: rat) < of_nat (N + 1)" using assms(2) c(1,2) by simp
  then have "q < N + 1" by (simp only: of_nat_less_iff)
  then have q: "q \<le> N" by simp
  show ?thesis
  proof (cases "r < 1 / 2")
    case True
    then show ?thesis using c(4) q by simp
  next
    case False
    then have "(of_nat q :: rat) < of_nat N" using assms(2) c(1) by simp
    then have "q < N" by (simp only: of_nat_less_iff)
    then show ?thesis using c(4) by auto
  qed
qed

lemma round_half_even_half:
  assumes "0 < snd x" "even N" "of_nat N - 1 / 2 \<le> frac_val x"
  shows "N \<le> round_half_even x"
proof -
  obtain q r where c: "frac_val x = of_nat q + r" "0 \<le> r" "r < 1"
    "round_half_even x =
       (if r < 1 / 2 then q else if 1 / 2 < r then q + 1 else if even q then q else q + 1)"
    using round_half_even_cases [OF assms(1)] by blast
  show ?thesis
  proof (cases "N \<le> q")
    case True
    then show ?thesis using c(4) by auto
  next
    case False
    then have "q + 1 \<le> N" by simp
    then have "(of_nat (q + 1) :: rat) \<le> of_nat N" by (simp only: of_nat_le_iff)
    then have qn: "(of_nat q :: rat) + 1 \<le> of_nat N" by simp
    then have r: "1 / 2 \<le> r" using assms(3) c(1) by simp
    have "(of_nat N :: rat) < of_nat (q + 2)" using assms(3) c(1,3) by simp
    then have "N < q + 2" by (simp only: of_nat_less_iff)
    with \<open>q + 1 \<le> N\<close> have N: "N = q + 1" by simp
    with assms(2) have "odd q" by simp
    then show ?thesis using c(4) r N by auto
  qed
qed

lemma power_int_2_less_cancel:
  assumes "(2::rat) powi a < 2 powi b"
  shows "a < b"
proof (rule ccontr)
  assume "\<not> a < b"
  then have "b \<le> a" by simp
  then have "(2::rat) powi b \<le> 2 powi a" by (intro power_int_increasing) auto
  with assms show False by simp
qed

lemma round_binary64_infinity_iff:
  assumes "0 < snd x"
  shows "round_binary64 neg x = Infinity neg \<longleftrightarrow> 2 ^ 1024 - 2 ^ 970 \<le> frac_val x"
proof (cases "fst x = 0")
  case True
  have "(2::rat) ^ 970 < 2 ^ 1024" by (intro power_strict_increasing) auto
  then show ?thesis using True by (simp add: round_binary64_def frac_val_def)
next
  case False
  then have pos: "0 < fst x" by simp
  let ?X = "frac_val x"
  let ?k = "floor_log 2 x"
  let ?e = "max (?k - 52) (- 1074)"
  let ?y = "scale 2 (- ?e) x"
  let ?m = "round_half_even ?y"
  let ?P = "(2::rat) ^ 971"
  have P: "0 < ?P" by simp
  have tw: "(2::rat) ^ 1024 = 2 ^ 53 * ?P" "(2::rat) ^ 970 * 2 = ?P"
    by (simp_all only: power_add [symmetric] power_Suc2 [symmetric]) simp_all
  from floor_log_bounds [OF pos assms, of 2]
  have k: "2 powi ?k \<le> ?X" "?X < 2 powi (?k + 1)" by simp_all
  have sy: "0 < snd ?y" using assms by (simp add: snd_scale)
  have y: "frac_val ?y = ?X * 2 powi (- ?e)" by (simp add: frac_val_scale)
  have inf: "round_binary64 neg x = Infinity neg \<longleftrightarrow> 971 < ?e \<or> (?m = 2 ^ 53 \<and> ?e = 971)"
    using False by (auto simp: round_binary64_def Let_def)
  show ?thesis
  proof
    assume "round_binary64 neg x = Infinity neg"
    with inf consider "971 < ?e" | "?m = 2 ^ 53" "?e = 971" by blast
    then show "2 ^ 1024 - 2 ^ 970 \<le> ?X"
    proof cases
      case 1
      then have "1024 \<le> ?k" by simp
      then have "(2::rat) powi 1024 \<le> 2 powi ?k" by (intro power_int_increasing) auto
      with k(1) have "(2::rat) ^ 1024 \<le> ?X" by simp
      moreover have "(0::rat) \<le> 2 ^ 970" by simp
      ultimately show ?thesis by linarith
    next
      case 2
      show ?thesis
      proof (rule ccontr)
        assume "\<not> 2 ^ 1024 - 2 ^ 970 \<le> ?X"
        then have "?X * 2 < (2 ^ 54 - 1) * ?P" using tw by (simp add: algebra_simps)
        then have "?X / ?P < of_nat (2 ^ 53 - 1) + 1 / 2" using P by (simp add: field_simps)
        moreover have "frac_val ?y = ?X / ?P" using y 2(2) by (simp add: field_simps)
        ultimately have "?m \<le> 2 ^ 53 - 1" using round_half_even_upper [OF sy] by simp
        with 2(1) show False by simp
      qed
    qed
  next
    assume T: "2 ^ 1024 - 2 ^ 970 \<le> ?X"
    have "(2::rat) ^ 1023 \<le> 2 ^ 1024 - 2 ^ 970"
    proof -
      have "(2::rat) ^ 970 \<le> 2 ^ 1023" by (intro power_increasing) auto
      moreover have "(2::rat) ^ 1024 = 2 ^ 1023 * 2" by (simp only: power_Suc2 [symmetric]) simp
      ultimately show ?thesis by simp
    qed
    with T k(2) have "(2::rat) powi 1023 < 2 powi (?k + 1)" by simp
    then have k1023: "1023 \<le> ?k" using power_int_2_less_cancel [of 1023 "?k + 1"] by simp
    show "round_binary64 neg x = Infinity neg"
    proof (cases "1024 \<le> ?k")
      case True
      then show ?thesis using inf by simp
    next
      case False
      with k1023 have keq: "?k = 1023" by simp
      then have e: "?e = 971" by simp
      have yv: "frac_val ?y = ?X / ?P" using y e by (simp add: field_simps)
      have "(2 ^ 54 - 1) * ?P \<le> ?X * 2" using T tw by (simp add: algebra_simps)
      then have "of_nat (2 ^ 53) - 1 / 2 \<le> ?X / ?P" using P by (simp add: field_simps)
      then have lo: "2 ^ 53 \<le> ?m" using round_half_even_half [OF sy, of "2 ^ 53"] yv by simp
      have "?X < 2 ^ 1024" using k(2) keq by simp
      then have "?X / ?P < of_nat (2 ^ 53) + 1 / 2" using tw(1) P by (simp add: field_simps)
      then have "?m \<le> 2 ^ 53" using round_half_even_upper [OF sy, of "2 ^ 53"] yv by simp
      with lo have "?m = 2 ^ 53" by simp
      then show ?thesis using inf e by simp
    qed
  qed
qed

section \<open>The digits that \<open>str\<close> writes\<close>

lemma round_binary64_zero: "fst x = 0 \<Longrightarrow> round_binary64 neg x = Finite neg 0 (- 1074)"
  by (simp add: round_binary64_def)

lemma repr_candidate_pos:
  assumes "0 < m" "repr_candidate m e p n = Some r"
  shows "0 < fst r"
proof (rule ccontr)
  assume "\<not> 0 < fst r"
  then have r0: "fst r = 0" by simp
  let ?s = "p - int n + 1"
  let ?y = "scale 10 (- ?s) (scale 2 e (m, 1))"
  let ?lo = "fst ?y div snd ?y"
  have z: "round_binary64 False (scale 10 ?s (0, 1)) \<noteq> Finite False m e"
    using assms(1) by (simp add: round_binary64_zero scale_def)
  from assms(2) r0 have "?lo = 0 \<and> round_binary64 False (scale 10 ?s (?lo, 1)) = Finite False m e"
    by (auto simp: repr_candidate_def Let_def split: if_splits)
  then have lo: "?lo = 0" and ok: "round_binary64 False (scale 10 ?s (?lo, 1)) = Finite False m e"
    by blast+
  from ok have "round_binary64 False (scale 10 ?s (0, 1)) = Finite False m e"
    unfolding lo .
  with z show False by blast
qed

lemma shortest_decimal_pos:
  assumes "0 < m" "p = floor_log 10 (scale 2 e (m, 1))"
  shows "0 < fst (shortest_decimal m e p n)"
  using assms
proof (induction m e p n rule: shortest_decimal.induct)
  case (1 m e p n)
  let ?X = "scale 2 e (m, 1)"
  have X: "0 < fst ?X" "0 < snd ?X" using "1.prems"(1) by (simp_all add: scale_def)
  show ?case
  proof (cases "17 \<le> n")
    case True
    let ?y = "scale 10 (16 - p) ?X"
    have "(10::rat) powi p \<le> frac_val ?X"
      using floor_log_bounds(1) [OF X, of 10] "1.prems"(2) by simp
    then have "(10::rat) powi p * 10 powi (16 - p) \<le> frac_val ?X * 10 powi (16 - p)"
      by (intro mult_right_mono) auto
    also have "(10::rat) powi p * 10 powi (16 - p) = 10 powi 16"
      by (simp add: power_int_add [symmetric])
    finally have "of_nat (10 ^ 16) \<le> frac_val ?y" by (simp add: frac_val_scale)
    moreover have "0 < snd ?y" using X(2) by (simp add: snd_scale)
    ultimately have "10 ^ 16 \<le> round_half_even ?y" by (rule round_half_even_floor [rotated])
    then show ?thesis using True by (subst shortest_decimal.simps) simp
  next
    case False
    show ?thesis
    proof (cases "repr_candidate m e p n")
      case None
      then show ?thesis using False "1.IH" [OF False None "1.prems"]
        by (subst shortest_decimal.simps) simp
    next
      case (Some r)
      then show ?thesis using False repr_candidate_pos [OF "1.prems"(1) Some]
        by (subst shortest_decimal.simps) simp
    qed
  qed
qed

lemma dec_digits_hd: "0 < n \<Longrightarrow> hd (dec_digits n) \<noteq> 0"
proof (induction n rule: dec_digits.induct)
  case (1 n)
  show ?case
  proof (cases "n < 10")
    case True
    with "1.prems" show ?thesis by (subst dec_digits.simps) simp
  next
    case False
    then have "0 < n div 10" by simp
    from "1.IH" [OF False this] show ?thesis
      using False dec_digits_nonempty [of "n div 10"] by (subst dec_digits.simps) simp
  qed
qed

lemma strip_zeros_nonempty:
  assumes "ds \<noteq> []" "hd ds \<noteq> 0"
  shows "strip_zeros ds \<noteq> []"
proof -
  have "hd ds \<in> set (rev ds)" using assms(1) by simp
  then have "\<exists>d \<in> set (rev ds). \<not> d = 0" using assms(2) by blast
  then have "dropWhile (\<lambda>d. d = 0) (rev ds) \<noteq> []" by (simp add: dropWhile_eq_Nil_conv)
  then show ?thesis by (simp add: strip_zeros_def)
qed

lemma strip_zeros_subset: "set (strip_zeros ds) \<subseteq> set ds"
  by (auto simp: strip_zeros_def dest: set_dropWhileD)

lemma repr_digits:
  assumes "0 < c"
  shows "strip_zeros (dec_digits c) \<noteq> []" "\<forall>d \<in> set (strip_zeros (dec_digits c)). d < 10"
  using assms strip_zeros_nonempty [OF dec_digits_nonempty dec_digits_hd] strip_zeros_subset
    dec_digits_lt10 by blast+

section \<open>\<open>float\<close> reads what \<open>str\<close> writes\<close>

lemma take_drop_run:
  assumes "list_all P xs" "rest = [] \<or> \<not> P (hd rest)"
  shows "takeWhile P (xs @ rest) = xs" "dropWhile P (xs @ rest) = rest"
proof -
  have a: "takeWhile P rest = []" "dropWhile P rest = rest"
    using assms(2) by (cases rest; auto)+
  from assms(1) have all: "\<forall>x \<in> set xs. P x" by (simp add: list_all_iff)
  show "takeWhile P (xs @ rest) = xs" using all a(1) by (simp add: takeWhile_append2)
  show "dropWhile P (xs @ rest) = rest" using all a(2) by (simp add: dropWhile_append2)
qed

lemma parse_exponent_signed:
  assumes "sg = 43 \<or> sg = 45" "eds \<noteq> []" "list_all ascii_isdigit eds"
  shows "\<exists>k. parse_exponent (101 # sg # eds) = Some k"
  using assms by (auto simp: parse_exponent_def split_sign_def Let_def)

lemma py_float_number:
  assumes ip: "ip \<noteq> []" "list_all ascii_isdigit ip"
    and fp: "list_all ascii_isdigit fp"
    and pt: "pt = [46] \<or> (pt = [] \<and> fp = [])"
    and ex: "ex = [] \<or> (\<exists>sg eds. ex = 101 # sg # eds \<and> (sg = 43 \<or> sg = 45) \<and> eds \<noteq> [] \<and>
               list_all ascii_isdigit eds)"
  shows "\<exists>fr. py_float (ip @ pt @ fp @ ex) = Some (round_binary64 False fr)"
    and "ascii_isdigit (hd (ip @ pt @ fp @ ex))"
proof -
  let ?s = "ip @ pt @ fp @ ex"
  have chars: "\<forall>c \<in> set ?s. ascii_isdigit c \<or> c = 46 \<or> c = 101 \<or> c = 43 \<or> c = 45"
    using ip(2) fp pt ex by (auto simp: list_all_iff)
  have ne: "?s \<noteq> []" using ip(1) by simp
  show hd: "ascii_isdigit (hd ?s)" using ip by (cases ip) auto
  have ch: "c < 128 \<and> c \<noteq> 95 \<and> \<not> ascii_isspace c" if "c \<in> set ?s" for c
  proof -
    from chars that have "ascii_isdigit c \<or> c = 46 \<or> c = 101 \<or> c = 43 \<or> c = 45" by blast
    then show ?thesis by (auto simp: ascii_isspace_def ascii_isdigit_def)
  qed
  have "hd ?s \<in> set ?s" using ne by (rule hd_in_set)
  then have e1: "\<not> ascii_isspace (hd ?s)" using ch by blast
  have "last ?s \<in> set ?s" using ne by (rule last_in_set)
  then have e2: "\<not> ascii_isspace (last ?s)" using ch by blast
  have "\<forall>c \<in> set ?s. c < 128" using ch by blast
  then have tr: "map float_transform ?s = ?s" by (rule float_transform_ascii)
  have strip: "strip_space ?s = ?s" using ne e1 e2 by (rule strip_space_id)
  have "95 \<notin> set ?s" using ch by blast
  then have under: "remove_underscores 0 ?s = Some ?s" by (rule remove_underscores_id) simp
  have sign: "split_sign ?s = (False, ?s)"
    using hd ne by (cases ?s) (auto simp: split_sign_def ascii_isdigit_def)
  have "hd (map ascii_lower ?s) = hd ?s"
    using hd ne by (cases ?s) (auto simp: ascii_lower_def ascii_isdigit_def)
  then have "ascii_isdigit (hd (map ascii_lower ?s))" using hd by simp
  then have body: "map ascii_lower ?s \<noteq> ustr ''inf''" "map ascii_lower ?s \<noteq> ustr ''infinity''"
    "map ascii_lower ?s \<noteq> ustr ''nan''"
    by (auto simp: ustr_def ascii_isdigit_def)
  have "\<exists>k. parse_exponent ex = Some k"
  proof (cases "ex = []")
    case True
    then show ?thesis by (simp add: parse_exponent_def)
  next
    case False
    with ex obtain sg eds where "ex = 101 # sg # eds" "sg = 43 \<or> sg = 45" "eds \<noteq> []"
      "list_all ascii_isdigit eds" by blast
    then show ?thesis using parse_exponent_signed [of sg eds] by simp
  qed
  then obtain k where k: "parse_exponent ex = Some k" by blast
  have exhd: "ex = [] \<or> \<not> ascii_isdigit (hd ex)" using ex by (auto simp: ascii_isdigit_def)
  have "\<exists>fr. parse_decimal ?s = Some fr"
  proof (cases "pt = [46]")
    case True
    have r: "46 # fp @ ex = [] \<or> \<not> ascii_isdigit (hd (46 # fp @ ex))"
      by (simp add: ascii_isdigit_def)
    have 1: "takeWhile ascii_isdigit (ip @ 46 # fp @ ex) = ip"
      "dropWhile ascii_isdigit (ip @ 46 # fp @ ex) = 46 # fp @ ex"
      using take_drop_run [OF ip(2) r] by simp_all
    have 2: "takeWhile ascii_isdigit (fp @ ex) = fp" "dropWhile ascii_isdigit (fp @ ex) = ex"
      using take_drop_run [OF fp exhd] by simp_all
    show ?thesis using ip(1) k by (simp add: True parse_decimal_def 1 2 Let_def)
  next
    case False
    with pt have p: "pt = []" "fp = []" by auto
    have 1: "takeWhile ascii_isdigit (ip @ ex) = ip" "dropWhile ascii_isdigit (ip @ ex) = ex"
      using take_drop_run [OF ip(2) exhd] by simp_all
    have np: "(ex \<noteq> [] \<and> hd ex = 46) = False" using ex by auto
    have "parse_decimal (ip @ ex) = Some (scale 10 (k - int (length ([] :: ustr))) (digits_value (ip @ []), 1))"
      unfolding parse_decimal_def 1 Let_def np using ip(1) k by simp
    then show ?thesis by (simp add: p)
  qed
  then obtain fr where fr: "parse_decimal ?s = Some fr" by blast
  have "py_float ?s = Some (round_binary64 False fr)"
    unfolding py_float_def tr strip under using body fr by (simp add: sign Let_def)
  then show "\<exists>fr. py_float ?s = Some (round_binary64 False fr)" by blast
qed

lemma digit_chars_digits: "\<forall>d \<in> set ds. d < 10 \<Longrightarrow> list_all ascii_isdigit (digit_chars ds)"
  by (rule digit_chars_isdigit)

lemma exponent_str_shape:
  "\<exists>sg eds. exponent_str k = sg # eds \<and> (sg = 43 \<or> sg = 45) \<and> eds \<noteq> [] \<and>
     list_all ascii_isdigit eds"
proof -
  let ?eds = "(if \<bar>k\<bar> < 10 then [48] else []) @ digit_chars (dec_digits (nat \<bar>k\<bar>))"
  have "list_all ascii_isdigit (digit_chars (dec_digits (nat \<bar>k\<bar>)))"
    by (rule dec_digit_chars_isdigit)
  then have "list_all ascii_isdigit ?eds" by (simp add: ascii_isdigit_def)
  moreover have "?eds \<noteq> []" by (simp add: digit_chars_def dec_digits_nonempty)
  moreover have "exponent_str k = (if k < 0 then 45 else 43) # ?eds"
    by (simp add: exponent_str_def)
  ultimately show ?thesis by (intro exI [of _ "if k < 0 then 45 else 43"] exI [of _ ?eds]) simp
qed

lemma py_float_format_repr:
  assumes "ds \<noteq> []" "\<forall>d \<in> set ds. d < 10"
  shows "\<exists>fr. py_float (format_repr ds decpt) = Some (round_binary64 False fr)"
    and "ascii_isdigit (hd (format_repr ds decpt))"
proof -
  have dig: "list_all ascii_isdigit (digit_chars xs)" if "set xs \<subseteq> set ds" for xs
    using that assms(2) by (intro digit_chars_isdigit) auto
  have zeros: "list_all ascii_isdigit (replicate k 48)" for k
    by (simp add: list_all_iff ascii_isdigit_def)
  have sub: "set (take k ds) \<subseteq> set ds" "set (drop k ds) \<subseteq> set ds" for k
    by (auto dest: in_set_takeD in_set_dropD)
  obtain sg eds where e: "exponent_str (decpt - 1) = sg # eds" "sg = 43 \<or> sg = 45" "eds \<noteq> []"
    "list_all ascii_isdigit eds"
    using exponent_str_shape [of "decpt - 1"] by blast
  have ex: "101 # exponent_str (decpt - 1) = [] \<or>
     (\<exists>sg eds. 101 # exponent_str (decpt - 1) = 101 # sg # eds \<and> (sg = 43 \<or> sg = 45) \<and>
        eds \<noteq> [] \<and> list_all ascii_isdigit eds)"
    using e by auto
  have t1: "digit_chars (take 1 ds) \<noteq> []" using assms(1) by (cases ds) (auto simp: digit_chars_def)
  consider (sci_pt) "decpt \<le> - 4 \<or> 16 < decpt" "1 < length ds"
    | (sci) "decpt \<le> - 4 \<or> 16 < decpt" "\<not> 1 < length ds"
    | (small) "\<not> (decpt \<le> - 4 \<or> 16 < decpt)" "decpt \<le> 0"
    | (whole) "\<not> (decpt \<le> - 4 \<or> 16 < decpt)" "\<not> decpt \<le> 0" "int (length ds) \<le> decpt"
    | (mid) "\<not> (decpt \<le> - 4 \<or> 16 < decpt)" "\<not> decpt \<le> 0" "\<not> int (length ds) \<le> decpt"
    by blast
  then have "(\<exists>fr. py_float (format_repr ds decpt) = Some (round_binary64 False fr)) \<and>
      ascii_isdigit (hd (format_repr ds decpt))"
  proof cases
    case sci_pt
    have f: "format_repr ds decpt =
        digit_chars (take 1 ds) @ [46] @ digit_chars (drop 1 ds) @ 101 # exponent_str (decpt - 1)"
      using sci_pt by (simp add: format_repr_def)
    have pt: "[46] = [46] \<or> ([46] = [] \<and> digit_chars (drop 1 ds) = [])" by simp
    show ?thesis unfolding f
      using py_float_number [OF t1 dig [OF sub(1)] dig [OF sub(2)] pt ex] by blast
  next
    case sci
    have f: "format_repr ds decpt =
        digit_chars (take 1 ds) @ [] @ [] @ 101 # exponent_str (decpt - 1)"
      using sci by (simp add: format_repr_def)
    have pt: "[] = [46] \<or> ([] = [] \<and> [] = ([] :: ustr))" by simp
    have fp: "list_all ascii_isdigit []" by simp
    show ?thesis unfolding f
      using py_float_number [OF t1 dig [OF sub(1)] fp pt ex] by blast
  next
    case small
    have f: "format_repr ds decpt =
        [48] @ [46] @ (replicate (nat (- decpt)) 48 @ digit_chars ds) @ []"
      using small by (simp add: format_repr_def)
    have fp: "list_all ascii_isdigit (replicate (nat (- decpt)) 48 @ digit_chars ds)"
      using zeros dig [of ds] by simp
    have ip: "[48] \<noteq> ([] :: ustr)" "list_all ascii_isdigit [48]" by (simp_all add: ascii_isdigit_def)
    have pt: "[46] = [46] \<or> ([46] = [] \<and> replicate (nat (- decpt)) 48 @ digit_chars ds = [])"
      by simp
    have ex0: "[] = [] \<or> (\<exists>sg eds. [] = 101 # sg # eds \<and> (sg = 43 \<or> sg = 45) \<and> eds \<noteq> [] \<and>
        list_all ascii_isdigit eds)" by simp
    show ?thesis unfolding f
      using py_float_number [OF ip fp pt ex0] by blast
  next
    case whole
    have f: "format_repr ds decpt =
        (digit_chars ds @ replicate (nat (decpt - int (length ds))) 48) @ [46] @ [48] @ []"
      using whole by (simp add: format_repr_def)
    have ip: "digit_chars ds @ replicate (nat (decpt - int (length ds))) 48 \<noteq> []"
      "list_all ascii_isdigit (digit_chars ds @ replicate (nat (decpt - int (length ds))) 48)"
      using zeros dig [of ds] assms(1) by (simp_all add: digit_chars_def)
    have fp: "list_all ascii_isdigit [48]" by (simp add: ascii_isdigit_def)
    have pt: "[46] = [46] \<or> ([46] = [] \<and> [48] = ([] :: ustr))" by simp
    have ex0: "[] = [] \<or> (\<exists>sg eds. [] = 101 # sg # eds \<and> (sg = 43 \<or> sg = 45) \<and> eds \<noteq> [] \<and>
        list_all ascii_isdigit eds)" by simp
    show ?thesis unfolding f
      using py_float_number [OF ip fp pt ex0] by blast
  next
    case mid
    have f: "format_repr ds decpt =
        digit_chars (take (nat decpt) ds) @ [46] @ digit_chars (drop (nat decpt) ds) @ []"
      using mid by (simp add: format_repr_def)
    have ne: "digit_chars (take (nat decpt) ds) \<noteq> []"
      using mid assms(1) by (auto simp: digit_chars_def)
    have pt: "[46] = [46] \<or> ([46] = [] \<and> digit_chars (drop (nat decpt) ds) = [])" by simp
    have ex0: "[] = [] \<or> (\<exists>sg eds. [] = 101 # sg # eds \<and> (sg = 43 \<or> sg = 45) \<and> eds \<noteq> [] \<and>
        list_all ascii_isdigit eds)" by simp
    show ?thesis unfolding f
      using py_float_number [OF ne dig [OF sub(1)] dig [OF sub(2)] pt ex0] by blast
  qed
  then show "\<exists>fr. py_float (format_repr ds decpt) = Some (round_binary64 False fr)"
    and "ascii_isdigit (hd (format_repr ds decpt))" by blast+
qed

section \<open>The values of the parsed mapping\<close>

lemma py_float_inf: "py_float (ustr ''inf'') = Some (Infinity False)"
  by (simp add: py_float_def float_transform_def strip_space_def ascii_isspace_def
      ascii_isdigit_def split_sign_def ascii_lower_def ustr_def)

lemma py_float_zero: "py_float (ustr ''0.0'') = Some (Finite False 0 (- 1074))"
  by (simp add: py_float_def float_transform_def strip_space_def ascii_isspace_def
      ascii_isdigit_def split_sign_def ascii_lower_def ustr_def parse_decimal_def
      parse_exponent_def digits_value_def scale_def round_binary64_def)

lemma py_float_py_str:
  shows "\<exists>x. py_float (py_str (round_binary64 False fr)) = Some x \<and> nonnegative x"
    and "py_str (round_binary64 False fr) = ustr ''inf'' \<longleftrightarrow>
           round_binary64 False fr = Infinity False"
proof -
  let ?y = "round_binary64 False fr"
  have "(\<exists>x. py_float (py_str ?y) = Some x \<and> nonnegative x) \<and>
      (py_str ?y = ustr ''inf'' \<longleftrightarrow> ?y = Infinity False)"
  proof (cases "?y = Infinity False")
    case True
    then show ?thesis using py_float_inf by simp
  next
    case False
    with round_binary64_sign [of False fr] obtain m e where y: "?y = Finite False m e" by blast
    have "(\<exists>fr'. py_float (float_repr m e) = Some (round_binary64 False fr')) \<and>
        ascii_isdigit (hd (float_repr m e))"
    proof (cases "m = 0")
      case True
      have "Finite False 0 (- 1074) = round_binary64 False (0, 1)"
        by (simp add: round_binary64_def)
      then show ?thesis using True py_float_zero
        by (auto simp: float_repr_def ustr_def ascii_isdigit_def)
    next
      case False
      then have m: "0 < m" by simp
      let ?r = "shortest_decimal m e (floor_log 10 (scale 2 e (m, 1))) 1"
      from shortest_decimal_pos [OF m refl] have "0 < fst ?r" .
      from repr_digits [OF this] py_float_format_repr [of "strip_zeros (dec_digits (fst ?r))"]
      show ?thesis using False by (simp add: float_repr_def Let_def)
    qed
    then obtain fr' where p: "py_float (float_repr m e) = Some (round_binary64 False fr')"
      and h: "ascii_isdigit (hd (float_repr m e))" by blast
    from h have "float_repr m e \<noteq> ustr ''inf''" by (auto simp: ustr_def ascii_isdigit_def)
    then show ?thesis using y p round_binary64_nonnegative [of fr'] by auto
  qed
  then show "\<exists>x. py_float (py_str ?y) = Some x \<and> nonnegative x"
    and "py_str ?y = ustr ''inf'' \<longleftrightarrow> ?y = Infinity False" by blast+
qed

lemma snd_capture_value: "0 < snd (capture_value g)"
  by (simp add: capture_value_def Let_def snd_scale)

section \<open>Evaluation on concrete texts\<close>

lemmas rx_eval = pat_colon_def pat_hyphen_def pat_space_def pat_time_def pat_equals_def lits_def
  number_group_def ustr_def ignorecase_set_def ascii_lower_def uni_isspace_def uni_isdecimal_def
  uni_todecimal_def nd_zeros_def keep_def

lemmas float_eval = py_float_def float_transform_def strip_space_def ascii_isspace_def
  ascii_isdigit_def split_sign_def ascii_lower_def parse_decimal_def parse_exponent_def
  digits_value_def ustr_def round_binary64_def round_half_even_def floor_log_def scale_def
  ndigits_def ndigits_from.simps Let_def

lemmas str_eval = float_repr_def shortest_decimal.simps repr_candidate_def format_repr_def
  strip_zeros_def digit_chars_def dec_digits.simps exponent_str_def round_binary64_def
  round_half_even_def floor_log_def scale_def ndigits_def ndigits_from.simps Let_def ustr_def

lemma search_merrick_colon:
  "rx_search (pat_colon ''Merrick'') (ustr ''Merrick: 3.50'') = Some (ustr ''3.50'')"
  by (simp add: rx_eval)

lemma search_merrick_others:
  "rx_search (pat_hyphen ''Merrick'') (ustr ''Merrick: 3.50'') = None"
  "rx_search (pat_space ''Merrick'') (ustr ''Merrick: 3.50'') = None"
  "rx_search (pat_time ''Merrick'') (ustr ''Merrick: 3.50'') = None"
  "rx_search (pat_equals ''Merrick'') (ustr ''Merrick: 3.50'') = None"
  by (simp_all add: rx_eval)

lemma float_350: "py_float (ustr ''3.50'') = Some (Finite False 7881299347898368 (- 51))"
  by (simp add: float_eval)

lemma str_350: "py_str (Finite False 7881299347898368 (- 51)) = ustr ''3.5''"
  by (simp add: str_eval)

section \<open>The claims on the parser\<close>

text \<open>
  C10.  In the local-OCR variant, which has no handler around \<open>float\<close>, the conversion
  never raises: whatever a pattern captures has the shape digits, point, digits, and
  \<open>float\<close> reads every text of that shape, also with non-ASCII digits.  So
  \<open>parse_leaderboard_data\<close> returns a mapping for every text.
\<close>

theorem local_float_never_raises:
  "(\<forall>name p g. p \<in> set (patterns_local name) \<and> rx_search p tx = Some g \<longrightarrow>
      decimal_capture g \<and> (\<exists>x. py_float g = Some x)) \<and>
   (\<exists>m. parse_leaderboard_data_local tx = Inr m)"
proof (intro conjI allI impI)
  fix name p g
  assume "p \<in> set (patterns_local name) \<and> rx_search p tx = Some g"
  then have "p \<in> set (patterns_ocrspace name)" "rx_search p tx = Some g"
    using patterns_local_subset by auto
  then show "decimal_capture g" by (rule pattern_capture(1))
  then show "\<exists>x. py_float g = Some x" by (simp add: py_float_capture)
next
  show "\<exists>m. parse_leaderboard_data_local tx = Inr m"
    unfolding parse_leaderboard_data_local_def by (rule parse_names_local_total)
qed

theorem local_float_never_raises_witness:
  "pat_colon ''Merrick'' \<in> set (patterns_local ''Merrick'') \<and>
   rx_search (pat_colon ''Merrick'') (ustr ''Merrick: 3.50'') = Some (ustr ''3.50'') \<and>
   decimal_capture (ustr ''3.50'') \<and> (\<exists>x. py_float (ustr ''3.50'') = Some x) \<and>
   (\<exists>m. parse_leaderboard_data_local (ustr ''Merrick: 3.50'') = Inr m)"
  using local_float_never_raises [of "ustr ''Merrick: 3.50''"] search_merrick_colon
  by (auto simp: patterns_local_def)

text \<open>
  C4.  The keys of the parsed mapping are names of the roster: a key outside the roster
  has no entry, and a text in which no name of the roster occurs, in any letter case,
  gives the empty mapping.  This holds in both variants.
\<close>

theorem parse_keys_in_roster:
  "dom (parse_leaderboard_data tx) \<subseteq> ustr ` set player_names \<and>
   (k \<notin> ustr ` set player_names \<longrightarrow> parse_leaderboard_data tx k = None) \<and>
   ((\<forall>name \<in> set player_names. \<not> ci_occurs name tx) \<longrightarrow>
      parse_leaderboard_data tx = Map.empty \<and> parse_leaderboard_data_local tx = Inr Map.empty) \<and>
   (\<forall>m. parse_leaderboard_data_local tx = Inr m \<longrightarrow> dom m \<subseteq> ustr ` set player_names)"
proof (intro conjI impI allI)
  show "dom (parse_leaderboard_data tx) \<subseteq> ustr ` set player_names"
  proof (rule subsetI, rule ccontr)
    fix k
    assume "k \<in> dom (parse_leaderboard_data tx)" "k \<notin> ustr ` set player_names"
    then show False using parse_leaderboard_data_other [of k tx] by auto
  qed
  show "parse_leaderboard_data tx k = None" if "k \<notin> ustr ` set player_names"
    using that by (rule parse_leaderboard_data_other)
  show "dom m \<subseteq> ustr ` set player_names" if m: "parse_leaderboard_data_local tx = Inr m" for m
  proof (rule subsetI, rule ccontr)
    fix k
    assume "k \<in> dom m" "k \<notin> ustr ` set player_names"
    then show False using parse_leaderboard_data_local_other [OF m, of k] by auto
  qed
next
  assume no: "\<forall>name \<in> set player_names. \<not> ci_occurs name tx"
  have a: "try_patterns (patterns_ocrspace name) tx = None" if "name \<in> set player_names" for name
    using try_patterns_occurs [of "patterns_ocrspace name" name tx] no that
    by (cases "try_patterns (patterns_ocrspace name) tx") auto
  have b: "try_patterns (patterns_local name) tx = None" if "name \<in> set player_names" for name
    using try_patterns_occurs [OF patterns_local_subset, of name tx] no that
    by (cases "try_patterns (patterns_local name) tx") auto
  show "parse_leaderboard_data tx = Map.empty"
  proof
    fix k
    show "parse_leaderboard_data tx k = None"
      using a parse_leaderboard_data_name [of _ tx] parse_leaderboard_data_other [of k tx]
      by (cases "k \<in> ustr ` set player_names") auto
  qed
  from parse_names_local_total [of player_names tx "Map.empty"] obtain m where
    m: "parse_leaderboard_data_local tx = Inr m" by (auto simp: parse_leaderboard_data_local_def)
  have "m = Map.empty"
  proof
    fix k
    show "m k = None"
      using b parse_leaderboard_data_local_name [OF m] parse_leaderboard_data_local_other [OF m, of k]
      by (cases "k \<in> ustr ` set player_names") auto
  qed
  with m show "parse_leaderboard_data_local tx = Inr Map.empty" by simp
qed

lemma no_name_in_bob: "\<forall>name \<in> set player_names. \<not> ci_occurs name (ustr ''Bob: 1.23'')"
  by (simp add: player_names_def ustr_def ignorecase_set_def ascii_lower_def)

theorem parse_keys_in_roster_witness:
  "ustr ''Bob'' \<notin> ustr ` set player_names \<and>
   list_all (\<lambda>name. \<not> ci_occurs name (ustr ''Bob: 1.23'')) player_names \<and>
   parse_leaderboard_data (ustr ''Bob: 1.23'') (ustr ''Bob'') = None \<and>
   parse_leaderboard_data (ustr ''Bob: 1.23'') = Map.empty \<and>
   parse_leaderboard_data_local (ustr ''Bob: 1.23'') = Inr Map.empty \<and>
   dom (parse_leaderboard_data (ustr ''Merrick: 3.50'')) \<subseteq> ustr ` set player_names"
proof -
  have "ustr ''Bob'' \<notin> ustr ` set player_names"
    by (simp add: player_names_def ustr_def)
  then show ?thesis
    using no_name_in_bob parse_keys_in_roster [of "ustr ''Bob: 1.23''" "ustr ''Bob''"]
      parse_keys_in_roster [of "ustr ''Merrick: 3.50''" "ustr ''Bob''"]
    by (simp add: list_all_iff)
qed

lemma first_match_value:
  assumes "set ps \<subseteq> set (patterns_ocrspace name)" "ps = qs @ p # rs"
    "\<forall>q \<in> set qs. rx_search q tx = None" "rx_search p tx = Some g"
  shows "py_float g = Some (round_binary64 False (capture_value g))"
    "try_patterns ps tx = Some (py_str (round_binary64 False (capture_value g)))"
proof -
  from assms(1,2) have "p \<in> set (patterns_ocrspace name)" by auto
  from pattern_capture(1) [OF this assms(4)]
  show f: "py_float g = Some (round_binary64 False (capture_value g))" by (rule py_float_capture)
  show "try_patterns ps tx = Some (py_str (round_binary64 False (capture_value g)))"
    unfolding assms(2) using assms(3,4) f by (rule try_patterns_first)
qed

lemma only_match_value:
  assumes "set ps \<subseteq> set (patterns_ocrspace name)" "p \<in> set ps" "rx_search p tx = Some g"
    "\<forall>q \<in> set ps. q \<noteq> p \<longrightarrow> rx_search q tx = None"
  shows "try_patterns ps tx = Some (py_str (round_binary64 False (capture_value g)))"
proof -
  from split_list_first [OF assms(2)] obtain qs rs where ps: "ps = qs @ p # rs" "p \<notin> set qs"
    by blast
  then have "\<forall>q \<in> set qs. rx_search q tx = None" using assms(4) by auto
  from first_match_value(2) [OF assms(1) ps(1) this assms(3)] show ?thesis .
qed

lemma search_point: "rx_search [GroupOpen, Once (Lit 46), GroupClose] (ustr ''.'') = Some (ustr ''.'')"
  by (simp add: rx_eval)

lemma float_point: "py_float (ustr ''.'') = None"
  by (simp add: float_eval)

lemma search_vy:
  "rx_search (pat_colon ''Vy'') (ustr ''Leaderboard Merrick - 1.23 Vy = 4.56'') = None"
  "rx_search (pat_hyphen ''Vy'') (ustr ''Leaderboard Merrick - 1.23 Vy = 4.56'') = None"
  "rx_search (pat_space ''Vy'') (ustr ''Leaderboard Merrick - 1.23 Vy = 4.56'') = None"
  "rx_search (pat_time ''Vy'') (ustr ''Leaderboard Merrick - 1.23 Vy = 4.56'') = None"
  "rx_search (pat_equals ''Vy'') (ustr ''Leaderboard Merrick - 1.23 Vy = 4.56'') = Some (ustr ''4.56'')"
  by (simp_all add: rx_eval)

lemma float_456: "py_float (ustr ''4.56'') = Some (Finite False 5134103575202365 (- 50))"
  by (simp add: float_eval)

lemma str_456: "py_str (Finite False 5134103575202365 (- 50)) = ustr ''4.56''"
  by (simp add: str_eval)

lemma search_lower_merrick:
  "rx_search (pat_colon ''Merrick'') (ustr ''merrick: 3.50'') = Some (ustr ''3.50'')"
  "rx_search (pat_hyphen ''Merrick'') (ustr ''merrick: 3.50'') = None"
  "rx_search (pat_space ''Merrick'') (ustr ''merrick: 3.50'') = None"
  "rx_search (pat_time ''Merrick'') (ustr ''merrick: 3.50'') = None"
  "rx_search (pat_equals ''Merrick'') (ustr ''merrick: 3.50'') = None"
  by (simp_all add: rx_eval)

text \<open>
  C2.  For every name of the roster the patterns are tried in their order and the
  first one that matches decides: its capture is read by \<open>float\<close>, which succeeds, and
  the entry of the name is \<open>str\<close> of that float, whatever the later patterns match.
  A capture that \<open>float\<close> rejects makes the loop go on with the next pattern, and a
  name without a candidate that parses has no entry; the entries of the other names do
  not depend on it.  The local-OCR variant also takes the first pattern that matches.
\<close>

theorem parse_patterns_in_order:
  "name \<in> set player_names \<Longrightarrow>
   parse_leaderboard_data tx (ustr name) = try_patterns (patterns_ocrspace name) tx \<and>
   (patterns_ocrspace name = qs @ p # rs \<and> (\<forall>q \<in> set qs. rx_search q tx = None) \<and>
    rx_search p tx = Some g \<longrightarrow>
      (\<exists>x. py_float g = Some x \<and> parse_leaderboard_data tx (ustr name) = Some (py_str x))) \<and>
   (rx_search p' tx = Some g' \<and> py_float g' = None \<longrightarrow>
      try_patterns (p' # ps) tx = try_patterns ps tx) \<and>
   ((\<forall>q \<in> set (patterns_ocrspace name).
       rx_search q tx = None \<or> (\<exists>g. rx_search q tx = Some g \<and> py_float g = None)) \<longrightarrow>
      parse_leaderboard_data tx (ustr name) = None) \<and>
   (patterns_local name = qs' @ p # rs' \<and> (\<forall>q \<in> set qs'. rx_search q tx = None) \<and>
    rx_search p tx = Some g \<longrightarrow>
      (\<exists>x m. py_float g = Some x \<and> parse_leaderboard_data_local tx = Inr m \<and>
             m (ustr name) = Some (py_str x)))"
proof (intro conjI impI)
  assume name: "name \<in> set player_names"
  show eq: "parse_leaderboard_data tx (ustr name) = try_patterns (patterns_ocrspace name) tx"
    using name by (rule parse_leaderboard_data_name)
  show "\<exists>x. py_float g = Some x \<and> parse_leaderboard_data tx (ustr name) = Some (py_str x)"
    if "patterns_ocrspace name = qs @ p # rs \<and> (\<forall>q \<in> set qs. rx_search q tx = None) \<and>
        rx_search p tx = Some g"
    using that first_match_value [of "patterns_ocrspace name" name qs p rs tx g] eq by auto
  show "try_patterns (p' # ps) tx = try_patterns ps tx"
    if "rx_search p' tx = Some g' \<and> py_float g' = None"
    using that by simp
  show "parse_leaderboard_data tx (ustr name) = None"
    if "\<forall>q \<in> set (patterns_ocrspace name).
       rx_search q tx = None \<or> (\<exists>g. rx_search q tx = Some g \<and> py_float g = None)"
    using try_patterns_None [OF that] eq by simp
  show "\<exists>x m. py_float g = Some x \<and> parse_leaderboard_data_local tx = Inr m \<and>
             m (ustr name) = Some (py_str x)"
    if h: "patterns_local name = qs' @ p # rs' \<and> (\<forall>q \<in> set qs'. rx_search q tx = None) \<and>
        rx_search p tx = Some g"
  proof -
    from parse_names_local_total [of player_names tx "Map.empty"] obtain m where
      m: "parse_leaderboard_data_local tx = Inr m" by (auto simp: parse_leaderboard_data_local_def)
    from h first_match_value [OF patterns_local_subset, of name qs' p rs' tx g]
    have "py_float g = Some (round_binary64 False (capture_value g))"
      "try_patterns (patterns_local name) tx = Some (py_str (round_binary64 False (capture_value g)))"
      by auto
    then show ?thesis using m parse_leaderboard_data_local_name [OF m name] by auto
  qed
qed

theorem parse_patterns_in_order_witness:
  "''Vy'' \<in> set player_names \<and>
   patterns_ocrspace ''Vy'' =
     [pat_colon ''Vy'', pat_hyphen ''Vy'', pat_space ''Vy'', pat_time ''Vy''] @ pat_equals ''Vy'' # [] \<and>
   list_all (\<lambda>q. rx_search q (ustr ''Leaderboard Merrick - 1.23 Vy = 4.56'') = None)
     [pat_colon ''Vy'', pat_hyphen ''Vy'', pat_space ''Vy'', pat_time ''Vy''] \<and>
   rx_search (pat_equals ''Vy'') (ustr ''Leaderboard Merrick - 1.23 Vy = 4.56'') = Some (ustr ''4.56'') \<and>
   parse_leaderboard_data (ustr ''Leaderboard Merrick - 1.23 Vy = 4.56'') (ustr ''Vy'') =
     Some (ustr ''4.56'') \<and>
   rx_search [GroupOpen, Once (Lit 46), GroupClose] (ustr ''.'') = Some (ustr ''.'') \<and>
   py_float (ustr ''.'') = None \<and>
   try_patterns ([GroupOpen, Once (Lit 46), GroupClose] # []) (ustr ''.'') = try_patterns [] (ustr ''.'')"
proof -
  let ?tx = "ustr ''Leaderboard Merrick - 1.23 Vy = 4.56''"
  have name: "''Vy'' \<in> set player_names" by (simp add: player_names_def)
  have pats: "patterns_ocrspace ''Vy'' =
     [pat_colon ''Vy'', pat_hyphen ''Vy'', pat_space ''Vy'', pat_time ''Vy''] @ pat_equals ''Vy'' # []"
    by (simp add: patterns_ocrspace_def)
  have none: "\<forall>q \<in> set [pat_colon ''Vy'', pat_hyphen ''Vy'', pat_space ''Vy'', pat_time ''Vy''].
      rx_search q ?tx = None"
    using search_vy by simp
  from parse_patterns_in_order [OF name, of ?tx
      "[pat_colon ''Vy'', pat_hyphen ''Vy'', pat_space ''Vy'', pat_time ''Vy'']"
      "pat_equals ''Vy''" "[]" "ustr ''4.56''"] pats none search_vy(5)
  have "\<exists>x. py_float (ustr ''4.56'') = Some x \<and> parse_leaderboard_data ?tx (ustr ''Vy'') = Some (py_str x)"
    by blast
  then have a: "parse_leaderboard_data ?tx (ustr ''Vy'') = Some (ustr ''4.56'')"
    using float_456 str_456 by auto
  have b: "try_patterns ([GroupOpen, Once (Lit 46), GroupClose] # []) (ustr ''.'') =
      try_patterns [] (ustr ''.'')"
    using parse_patterns_in_order [OF name, of "ustr ''.''" _ _ _ _
        "[GroupOpen, Once (Lit 46), GroupClose]" "ustr ''.''" "[]"] search_point float_point
    by blast
  have none': "list_all (\<lambda>q. rx_search q ?tx = None)
     [pat_colon ''Vy'', pat_hyphen ''Vy'', pat_space ''Vy'', pat_time ''Vy'']"
    using none by (simp add: list_all_iff)
  show ?thesis using name pats none' search_vy(5) a b search_point float_point by blast
qed

text \<open>
  C1.  When exactly one pattern of a roster name matches the text, the capture \<open>g\<close> of
  that pattern is read by \<open>float\<close> as the binary64 number nearest to the decimal it
  spells, and the name is bound to \<open>str\<close> of that number: \<open>Merrick: 3.50\<close> gives
  \<open>3.5\<close>, in any letter case of the name, in both variants.
\<close>

theorem parse_single_match:
  "name \<in> set player_names \<Longrightarrow> rx_search p tx = Some g \<Longrightarrow>
   (p \<in> set (patterns_ocrspace name) \<and>
    (\<forall>q \<in> set (patterns_ocrspace name). q \<noteq> p \<longrightarrow> rx_search q tx = None) \<longrightarrow>
      py_float g = Some (round_binary64 False (capture_value g)) \<and>
      parse_leaderboard_data tx (ustr name) =
        Some (py_str (round_binary64 False (capture_value g)))) \<and>
   (p \<in> set (patterns_local name) \<and>
    (\<forall>q \<in> set (patterns_local name). q \<noteq> p \<longrightarrow> rx_search q tx = None) \<longrightarrow>
      (\<exists>m. parse_leaderboard_data_local tx = Inr m \<and>
           m (ustr name) = Some (py_str (round_binary64 False (capture_value g)))))"
proof (intro conjI impI)
  assume name: "name \<in> set player_names" and g: "rx_search p tx = Some g"
  {
    assume h: "p \<in> set (patterns_ocrspace name) \<and>
      (\<forall>q \<in> set (patterns_ocrspace name). q \<noteq> p \<longrightarrow> rx_search q tx = None)"
    then show "py_float g = Some (round_binary64 False (capture_value g))"
      using pattern_capture(1) [of p name tx g] g by (auto intro: py_float_capture)
    from h show "parse_leaderboard_data tx (ustr name) =
        Some (py_str (round_binary64 False (capture_value g)))"
      using only_match_value [of "patterns_ocrspace name" name p tx g] g
        parse_leaderboard_data_name [OF name, of tx] by auto
  }
  assume h: "p \<in> set (patterns_local name) \<and>
    (\<forall>q \<in> set (patterns_local name). q \<noteq> p \<longrightarrow> rx_search q tx = None)"
  from parse_names_local_total [of player_names tx "Map.empty"] obtain m where
    m: "parse_leaderboard_data_local tx = Inr m" by (auto simp: parse_leaderboard_data_local_def)
  from h have "try_patterns (patterns_local name) tx =
      Some (py_str (round_binary64 False (capture_value g)))"
    using only_match_value [OF patterns_local_subset, of p name tx g] g by auto
  then show "\<exists>m. parse_leaderboard_data_local tx = Inr m \<and>
           m (ustr name) = Some (py_str (round_binary64 False (capture_value g)))"
    using m parse_leaderboard_data_local_name [OF m name] by auto
qed

theorem parse_single_match_witness:
  "''Merrick'' \<in> set player_names \<and>
   rx_search (pat_colon ''Merrick'') (ustr ''Merrick: 3.50'') = Some (ustr ''3.50'') \<and>
   pat_colon ''Merrick'' \<in> set (patterns_ocrspace ''Merrick'') \<and>
   list_all (\<lambda>q. q = pat_colon ''Merrick'' \<or> rx_search q (ustr ''Merrick: 3.50'') = None)
     (patterns_ocrspace ''Merrick'') \<and>
   parse_leaderboard_data (ustr ''Merrick: 3.50'') (ustr ''Merrick'') = Some (ustr ''3.5'') \<and>
   parse_leaderboard_data (ustr ''merrick: 3.50'') (ustr ''Merrick'') = Some (ustr ''3.5'') \<and>
   (\<exists>m. parse_leaderboard_data_local (ustr ''Merrick: 3.50'') = Inr m \<and>
        m (ustr ''Merrick'') = Some (ustr ''3.5''))"
proof -
  have name: "''Merrick'' \<in> set player_names" by (simp add: player_names_def)
  have p: "pat_colon ''Merrick'' \<in> set (patterns_ocrspace ''Merrick'')"
    "pat_colon ''Merrick'' \<in> set (patterns_local ''Merrick'')"
    by (simp_all add: patterns_ocrspace_def patterns_local_def)
  have one: "\<forall>q \<in> set (patterns_ocrspace ''Merrick'').
      q \<noteq> pat_colon ''Merrick'' \<longrightarrow> rx_search q (ustr ''Merrick: 3.50'') = None"
    using search_merrick_others by (simp add: patterns_ocrspace_def)
  have one_local: "\<forall>q \<in> set (patterns_local ''Merrick'').
      q \<noteq> pat_colon ''Merrick'' \<longrightarrow> rx_search q (ustr ''Merrick: 3.50'') = None"
    using search_merrick_others by (simp add: patterns_local_def)
  have one_lower: "\<forall>q \<in> set (patterns_ocrspace ''Merrick'').
      q \<noteq> pat_colon ''Merrick'' \<longrightarrow> rx_search q (ustr ''merrick: 3.50'') = None"
    using search_lower_merrick by (simp add: patterns_ocrspace_def)
  note t = parse_single_match [OF name search_merrick_colon]
  from t p(1) one float_350 have v: "round_binary64 False (capture_value (ustr ''3.50'')) =
      Finite False 7881299347898368 (- 51)" by simp
  from t p(1) one v str_350
  have a: "parse_leaderboard_data (ustr ''Merrick: 3.50'') (ustr ''Merrick'') = Some (ustr ''3.5'')"
    by simp
  from parse_single_match [OF name search_lower_merrick(1)] p(1) one_lower v str_350
  have b: "parse_leaderboard_data (ustr ''merrick: 3.50'') (ustr ''Merrick'') = Some (ustr ''3.5'')"
    by simp
  from t p(2) one_local v str_350
  have c: "\<exists>m. parse_leaderboard_data_local (ustr ''Merrick: 3.50'') = Inr m \<and>
        m (ustr ''Merrick'') = Some (ustr ''3.5'')"
    by simp
  have one': "list_all (\<lambda>q. q = pat_colon ''Merrick'' \<or> rx_search q (ustr ''Merrick: 3.50'') = None)
     (patterns_ocrspace ''Merrick'')"
    using one by (auto simp: list_all_iff)
  show ?thesis using name search_merrick_colon p(1) one' a b c by blast
qed

lemma search_vy_big:
  "rx_search (pat_colon ''Vy'') (ustr ''Vy:200000000000000000000000000000000000000000000000000000000000000000000000000000000000000000000000000000000000000000000000000000000000000000000000000000000000000000000000000000000000000000000000000000000000000000000000000000000000000000000000000000000000000000000000000000000000000000000000000000000000000000000.0'') = Some (ustr ''200000000000000000000000000000000000000000000000000000000000000000000000000000000000000000000000000000000000000000000000000000000000000000000000000000000000000000000000000000000000000000000000000000000000000000000000000000000000000000000000000000000000000000000000000000000000000000000000000000000000000000000.0'')"
  by (simp add: rx_eval)

lemma capture_value_big: "capture_value (ustr ''200000000000000000000000000000000000000000000000000000000000000000000000000000000000000000000000000000000000000000000000000000000000000000000000000000000000000000000000000000000000000000000000000000000000000000000000000000000000000000000000000000000000000000000000000000000000000000000000000000000000000000000.0'') = (2 * 10 ^ 309, 10)"
  by (simp add: capture_value_def float_transform_def ascii_isdigit_def digits_value_def
      scale_def ustr_def Let_def)

lemma parse_merrick_350:
  "parse_leaderboard_data (ustr ''Merrick: 3.50'') (ustr ''Merrick'') = Some (ustr ''3.5'')"
proof -
  have "''Merrick'' \<in> set player_names" by (simp add: player_names_def)
  then have "parse_leaderboard_data (ustr ''Merrick: 3.50'') (ustr ''Merrick'') =
      try_patterns (patterns_ocrspace ''Merrick'') (ustr ''Merrick: 3.50'')"
    by (rule parse_leaderboard_data_name)
  also have "\<dots> = Some (py_str (Finite False 7881299347898368 (- 51)))"
    using search_merrick_colon float_350 by (simp add: patterns_ocrspace_def)
  finally show ?thesis unfolding str_350 .
qed

lemma parse_vy_big:
  "parse_leaderboard_data (ustr ''Vy:200000000000000000000000000000000000000000000000000000000000000000000000000000000000000000000000000000000000000000000000000000000000000000000000000000000000000000000000000000000000000000000000000000000000000000000000000000000000000000000000000000000000000000000000000000000000000000000000000000000000000000000.0'') (ustr ''Vy'') = Some (ustr ''inf'')"
proof -
  let ?g = "ustr ''200000000000000000000000000000000000000000000000000000000000000000000000000000000000000000000000000000000000000000000000000000000000000000000000000000000000000000000000000000000000000000000000000000000000000000000000000000000000000000000000000000000000000000000000000000000000000000000000000000000000000000000.0''"
  have name: "''Vy'' \<in> set player_names" by (simp add: player_names_def)
  have p: "pat_colon ''Vy'' \<in> set (patterns_ocrspace ''Vy'')" by (simp add: patterns_ocrspace_def)
  have "(2::rat) ^ 1024 \<le> 2 * 10 ^ 308" by simp
  then have "2 ^ 1024 - 2 ^ 970 \<le> frac_val (capture_value ?g)"
    by (simp add: capture_value_big frac_val_def)
  then have inf: "round_binary64 False (capture_value ?g) = Infinity False"
    using round_binary64_infinity_iff [OF snd_capture_value] by blast
  have "py_float ?g = Some (round_binary64 False (capture_value ?g))"
    using pattern_capture(1) [OF p search_vy_big] by (rule py_float_capture)
  then have "try_patterns (patterns_ocrspace ''Vy'') (ustr ''Vy:200000000000000000000000000000000000000000000000000000000000000000000000000000000000000000000000000000000000000000000000000000000000000000000000000000000000000000000000000000000000000000000000000000000000000000000000000000000000000000000000000000000000000000000000000000000000000000000000000000000000000000000.0'') = Some (ustr ''inf'')"
    using search_vy_big inf by (simp add: patterns_ocrspace_def)
  then show ?thesis using parse_leaderboard_data_name [OF name] by simp
qed

text \<open>
  C3, as amended.  Every value of the parsed mapping belongs to a roster name for which
  a pattern matches, and is \<open>str\<close> of the float read from the capture; \<open>float\<close> reads
  the value back as a number that is not negative and not a NaN.  The number need not
  be finite: the value is \<open>inf\<close> exactly when the captured decimal is at least
  \<open>2\<^sup>1\<^sup>0\<^sup>2\<^sup>4 - 2\<^sup>9\<^sup>7\<^sup>0\<close>, where binary64 rounding overflows.  This holds in both variants.
\<close>

theorem parsed_values_nonnegative:
  "parse_leaderboard_data tx k = Some v \<or>
   (\<exists>m. parse_leaderboard_data_local tx = Inr m \<and> m k = Some v) \<Longrightarrow>
   \<exists>name p g. name \<in> set player_names \<and> k = ustr name \<and> p \<in> set (patterns_ocrspace name) \<and>
     rx_search p tx = Some g \<and> v = py_str (round_binary64 False (capture_value g)) \<and>
     (\<exists>x. py_float v = Some x \<and> nonnegative x) \<and>
     (v = ustr ''inf'' \<longleftrightarrow> 2 ^ 1024 - 2 ^ 970 \<le> frac_val (capture_value g)) \<and>
     (v = ustr ''inf'' \<longrightarrow> py_float v = Some (Infinity False))"
proof -
  assume h: "parse_leaderboard_data tx k = Some v \<or>
    (\<exists>m. parse_leaderboard_data_local tx = Inr m \<and> m k = Some v)"
  have "\<exists>name ps. name \<in> set player_names \<and> k = ustr name \<and>
      set ps \<subseteq> set (patterns_ocrspace name) \<and> try_patterns ps tx = Some v"
    using h
  proof
    assume a: "parse_leaderboard_data tx k = Some v"
    then have "k \<in> ustr ` set player_names" using parse_leaderboard_data_other [of k tx] by auto
    then obtain name where "name \<in> set player_names" "k = ustr name" by blast
    then show ?thesis using a parse_leaderboard_data_name [of name tx] by auto
  next
    assume "\<exists>m. parse_leaderboard_data_local tx = Inr m \<and> m k = Some v"
    then obtain m where m: "parse_leaderboard_data_local tx = Inr m" "m k = Some v" by blast
    then have "k \<in> ustr ` set player_names"
      using parse_leaderboard_data_local_other [OF m(1), of k] by auto
    then obtain name where "name \<in> set player_names" "k = ustr name" by blast
    then show ?thesis
      using m parse_leaderboard_data_local_name [OF m(1), of name] patterns_local_subset by metis
  qed
  then obtain name ps where n: "name \<in> set player_names" "k = ustr name"
    "set ps \<subseteq> set (patterns_ocrspace name)" "try_patterns ps tx = Some v" by blast
  from try_patterns_Some [OF n(4)] obtain p g x where
    p: "p \<in> set ps" "rx_search p tx = Some g" "py_float g = Some x" "v = py_str x" by blast
  from p(1) n(3) have pin: "p \<in> set (patterns_ocrspace name)" by auto
  from pattern_capture(1) [OF pin p(2)] p(3)
  have x: "x = round_binary64 False (capture_value g)" by (simp add: py_float_capture)
  have inf: "v = ustr ''inf'' \<longleftrightarrow> 2 ^ 1024 - 2 ^ 970 \<le> frac_val (capture_value g)"
    using py_float_py_str(2) [of "capture_value g"]
      round_binary64_infinity_iff [OF snd_capture_value, of False g] p(4) x by simp
  have v: "v = py_str (round_binary64 False (capture_value g))" using p(4) x by simp
  have nn: "\<exists>x. py_float v = Some x \<and> nonnegative x"
    unfolding v by (rule py_float_py_str(1))
  have pinf: "v = ustr ''inf'' \<longrightarrow> py_float v = Some (Infinity False)"
    using py_float_inf by simp
  show ?thesis using n(1,2) pin p(2) v nn inf pinf by blast
qed

theorem parsed_values_nonnegative_witness:
  "parse_leaderboard_data (ustr ''Merrick: 3.50'') (ustr ''Merrick'') = Some (ustr ''3.5'') \<and>
   (\<exists>x. py_float (ustr ''3.5'') = Some x \<and> nonnegative x) \<and>
   (\<exists>name p g. name \<in> set player_names \<and> ustr ''Merrick'' = ustr name \<and>
      p \<in> set (patterns_ocrspace name) \<and> rx_search p (ustr ''Merrick: 3.50'') = Some g)"
  using parsed_values_nonnegative [of "ustr ''Merrick: 3.50''" "ustr ''Merrick''" "ustr ''3.5''"]
    parse_merrick_350
  by blast

text \<open>
  The claim as it stands fails on a text with a number of 309 digits before the point:
  the value stored for \<open>Vy\<close> is \<open>inf\<close>, which \<open>float\<close> reads as infinity.
\<close>

theorem parsed_values_finite_counterexample:
  "parse_leaderboard_data (ustr ''Vy:200000000000000000000000000000000000000000000000000000000000000000000000000000000000000000000000000000000000000000000000000000000000000000000000000000000000000000000000000000000000000000000000000000000000000000000000000000000000000000000000000000000000000000000000000000000000000000000000000000000000000000000.0'') (ustr ''Vy'') = Some (ustr ''inf'') \<and>
   py_float (ustr ''inf'') = Some (Infinity False) \<and> \<not> is_finite (Infinity False)"
  using parse_vy_big py_float_inf by simp

end
